theory Spec2Isabelle
  imports Complex_Main "HOL-Library.Char_ord" "HOL-Library.List_Lexorder"
    "HOL-Library.Multiset"
begin

section \<open>Whale sighting analysis: data model\<close>

text \<open>
  The analysis engine works on a pandas DataFrame handed over by the cleaning pipeline.
  A row of the cleaned frame is a record with the columns the analysis reads; the
  frame is the list of its rows, in frame order. A Python float is modelled by the real
  number it stands for: arithmetic and the elementary functions are exact, so NaN,
  infinities and the rounding inside a formula are outside the model; the one place
  where rounding is modelled is the summation of the segment distances (see the
  section on floating-point addition). Timestamps are integers (nanoseconds since the
  epoch, as pandas stores them), and the frame is taken to be free of missing values,
  as the cleaner leaves it.
\<close>

record sighting =
  scientificname :: string
  latitude :: real
  longitude :: real
  eventdate :: int
  year :: int
  month :: int
  season :: string

type_synonym dataframe = "sighting list"

text \<open>
  The exceptions of the engine, under the names the specification gives them. The
  source raises \<open>ValueError\<close> for an unsupported \<open>time_period\<close> (\<open>InvalidArgument\<close>);
  \<open>InsufficientDataError\<close> is what the density estimator raises on degenerate input;
  \<open>InvalidCoordinate\<close> is raised nowhere in the source.
\<close>

datatype error = InvalidArgument | InsufficientDataError | InvalidCoordinate

section \<open>Cleaning: the season of a month\<close>

text \<open>
  \<^verbatim>\<open>_get_season\<close> of \<^verbatim>\<open>clean_data.py\<close>: three membership tests in order, and a
  final \<^verbatim>\<open>else\<close> that catches everything left.
\<close>

definition get_season :: "int \<Rightarrow> string" where
  "get_season m =
     (if m \<in> set [12, 1, 2] then ''Winter''
      else if m \<in> set [3, 4, 5] then ''Spring''
      else if m \<in> set [6, 7, 8] then ''Summer''
      else ''Autumn'')"

section \<open>Floating-point addition\<close>

text \<open>
  IEEE 754 binary64, round to nearest, ties to even: a real number is rounded to the
  nearest multiple of \<open>2 ^ (e - 52)\<close>, where \<open>2 ^ e\<close> is the power of two at or
  below its magnitude, and \<open>e\<close> is not taken below \<open>-1022\<close> (gradual underflow).
  Magnitudes beyond the largest double, which would round to infinity, are outside the
  model. \<open>fadd\<close> is the addition of two doubles, given by the reals nearest to
  which they lie. \<open>py_sum\<close> is Python's \<^verbatim>\<open>sum\<close> over a list of floats: it starts
  from 0 and adds from left to right.
\<close>

definition round_half_even :: "real \<Rightarrow> int" where
  "round_half_even y =
     (let f = \<lfloor>y\<rfloor> in
      if y - of_int f < 1 / 2 then f
      else if 1 / 2 < y - of_int f then f + 1
      else if even f then f else f + 1)"

definition fl64 :: "real \<Rightarrow> real" where
  "fl64 x =
     (if x = 0 then 0
      else
        let e = max \<lfloor>log 2 \<bar>x\<bar>\<rfloor> (-1022);
            q = 2 powi (e - 52)
        in of_int (round_half_even (x / q)) * q)"

definition fadd :: "real \<Rightarrow> real \<Rightarrow> real" where
  "fadd x y = fl64 (fl64 x + fl64 y)"

definition py_sum :: "real list \<Rightarrow> real" where
  "py_sum xs = foldl fadd 0 xs"

section \<open>Geometry\<close>

text \<open>
  \<^verbatim>\<open>_haversine_distance\<close>: degrees to radians, the haversine term \<open>a\<close>, the central
  angle \<open>c\<close>, and the Earth radius 6371 km. The body contains no check and no
  \<^verbatim>\<open>raise\<close>, so the only outcome of the model is \<open>Inr\<close>. The formula is
  evaluated exactly; where numpy's doubles would give NaN (a term under the root that
  rounding has pushed outside 0..1) the model has the exact value.
\<close>

definition radians :: "real \<Rightarrow> real" where
  "radians d = d * pi / 180"

definition haversine_distance :: "real \<Rightarrow> real \<Rightarrow> real \<Rightarrow> real \<Rightarrow> error + real" where
  "haversine_distance lat1 lon1 lat2 lon2 =
     (let R = 6371;
          lat1 = radians lat1; lon1 = radians lon1;
          lat2 = radians lat2; lon2 = radians lon2;
          dlat = lat2 - lat1;
          dlon = lon2 - lon1;
          a = (sin (dlat / 2))\<^sup>2 + cos lat1 * cos lat2 * (sin (dlon / 2))\<^sup>2;
          c = 2 * arcsin (sqrt a)
      in Inr (R * c))"

section \<open>The pandas operations the engine uses\<close>

text \<open>
  \<^verbatim>\<open>df.groupby(col)\<close> with the default \<^verbatim>\<open>sort=True\<close>: one group per distinct key,
  the groups in ascending key order, the rows of a group in frame order. String keys
  compare as Python compares \<^verbatim>\<open>str\<close>: lexicographically by code point.
\<close>

definition groupby :: "('a \<Rightarrow> 'k::linorder) \<Rightarrow> 'a list \<Rightarrow> ('k \<times> 'a list) list" where
  "groupby key df = map (\<lambda>k. (k, filter (\<lambda>r. key r = k) df)) (sort (remdups (map key df)))"

text \<open>\<^verbatim>\<open>df[mask]\<close>: the rows whose entry of the boolean mask is true.\<close>

definition mask :: "'a list \<Rightarrow> bool list \<Rightarrow> 'a list" where
  "mask df bs = map fst (filter snd (zip df bs))"

definition mean :: "real list \<Rightarrow> real" where
  "mean xs = sum_list xs / real (length xs)"

text \<open>
  \<^verbatim>\<open>Series.min()\<close> and \<^verbatim>\<open>Series.max()\<close>: the least and the greatest entry; on an empty
  series pandas answers NaN (NaT for dates) instead of raising, here \<open>None\<close>.
\<close>

fun series_min :: "'a::linorder list \<Rightarrow> 'a option" where
  "series_min [] = None"
| "series_min (x # xs) = Some (fold min xs x)"

fun series_max :: "'a::linorder list \<Rightarrow> 'a option" where
  "series_max [] = None"
| "series_max (x # xs) = Some (fold max xs x)"

section \<open>Density estimator\<close>

text \<open>
  Modelled from the spec: \<^verbatim>\<open>scipy.stats.gaussian_kde\<close>, which the source calls and
  which is not under src/. Section 4.2 of the specification: the fit fails with
  \<open>InsufficientDataError\<close> when there are fewer than 2 points or when all points
  coincide; otherwise it yields a density handle, here the fitted point set.
\<close>

datatype kde = Kde "(real \<times> real) list"

definition gaussian_kde :: "(real \<times> real) list \<Rightarrow> error + kde" where
  "gaussian_kde pts =
     (if length pts < 2 \<or> list_all (\<lambda>p. p = hd pts) pts then Inl InsufficientDataError
      else Inr (Kde pts))"

section \<open>Cluster detector\<close>

text \<open>
  Modelled from the spec: \<^verbatim>\<open>sklearn.cluster.DBSCAN\<close>, which the source calls and which
  is not under src/. Section 4.3 of the specification: a point is a core point when at
  least \<open>min_samples\<close> points, itself included, lie within \<open>eps\<close> of it in Euclidean
  distance; a cluster connects core points that are neighbours and absorbs their
  non-core neighbours; a point reached from no core point keeps the noise label \<open>-1\<close>;
  labels are given in one pass over the points in input order. The pass below is the
  usual one: every core point that has no label yet starts the next cluster, which is
  grown depth first from it over the neighbourhoods of its core points; a point that
  already carries a label keeps it.
\<close>

type_synonym point = "real \<times> real"

definition euclidean :: "point \<Rightarrow> point \<Rightarrow> real" where
  "euclidean p q = sqrt ((fst p - fst q)\<^sup>2 + (snd p - snd q)\<^sup>2)"

definition neighborhood :: "real \<Rightarrow> point list \<Rightarrow> nat \<Rightarrow> nat list" where
  "neighborhood eps ps i = filter (\<lambda>j. euclidean (ps ! i) (ps ! j) \<le> eps) [0..<length ps]"

definition is_core :: "real \<Rightarrow> nat \<Rightarrow> point list \<Rightarrow> nat \<Rightarrow> bool" where
  "is_core eps min_samples ps i = (min_samples \<le> length (neighborhood eps ps i))"

definition unlabelled :: "int list \<Rightarrow> nat" where
  "unlabelled labels = length (filter (\<lambda>l. l = -1) labels)"

lemma unlabelled_update:
  "v < length labels \<Longrightarrow> labels ! v = -1 \<Longrightarrow> x \<noteq> -1
   \<Longrightarrow> unlabelled (labels[v := x]) < unlabelled labels"
proof (induction labels arbitrary: v)
  case Nil
  then show ?case by simp
next
  case (Cons l ls)
  show ?case
  proof (cases v)
    case 0
    with Cons.prems show ?thesis by (simp add: unlabelled_def)
  next
    case (Suc w)
    with Cons.prems have "unlabelled (ls[w := x]) < unlabelled ls"
      by (intro Cons.IH) simp_all
    with Suc show ?thesis by (simp add: unlabelled_def)
  qed
qed

function expand :: "real \<Rightarrow> nat \<Rightarrow> point list \<Rightarrow> nat \<Rightarrow> nat list \<Rightarrow> int list \<Rightarrow> int list" where
  "expand eps min_samples ps c [] labels = labels"
| "expand eps min_samples ps c (v # stack) labels =
     (if length labels \<le> v \<or> labels ! v \<noteq> -1 then expand eps min_samples ps c stack labels
      else expand eps min_samples ps c
             ((if is_core eps min_samples ps v then neighborhood eps ps v else []) @ stack)
             (labels[v := int c]))"
  by pat_completeness auto
termination
  by (relation "measures [\<lambda>(eps, m, ps, c, stack, labels). unlabelled labels,
                          \<lambda>(eps, m, ps, c, stack, labels). length stack]")
     (auto simp: unlabelled_update)

fun dbscan_loop :: "real \<Rightarrow> nat \<Rightarrow> point list \<Rightarrow> nat list \<Rightarrow> nat \<Rightarrow> int list \<Rightarrow> int list" where
  "dbscan_loop eps min_samples ps [] c labels = labels"
| "dbscan_loop eps min_samples ps (i # rest) c labels =
     (if labels ! i \<noteq> -1 \<or> \<not> is_core eps min_samples ps i
      then dbscan_loop eps min_samples ps rest c labels
      else dbscan_loop eps min_samples ps rest (Suc c)
             (expand eps min_samples ps c [i] labels))"

definition DBSCAN :: "real \<Rightarrow> nat \<Rightarrow> point list \<Rightarrow> int list" where
  "DBSCAN eps min_samples ps =
     dbscan_loop eps min_samples ps [0..<length ps] 0 (replicate (length ps) (-1))"

section \<open>Habitat analyzer\<close>

text \<open>
  The keys of a grouped result: a year, a month or a season name, after the column
  that was grouped.
\<close>

datatype period = Year int | Month int | Season string

record habitat_metrics =
  total_sightings :: nat
  unique_locations :: nat
  hotspot_count :: nat
  density_estimate :: kde
  hotspots :: dataframe

text \<open>A metrics bundle is the Python dict of the five entries, or the empty dict.\<close>

datatype metrics_bundle = EmptyBundle | Metrics habitat_metrics

text \<open>
  \<^verbatim>\<open>_calculate_habitat_metrics\<close>: the empty frame is answered first; then the
  density fit on the (longitude, latitude) pairs, whose exception is not caught; then
  the clustering with \<open>eps = 1.0\<close> and \<open>min_samples = 5\<close>.
\<close>

definition calculate_habitat_metrics :: "dataframe \<Rightarrow> error + metrics_bundle" where
  "calculate_habitat_metrics df =
     (if df = [] then Inr EmptyBundle
      else
        let coordinates = map (\<lambda>r. (longitude r, latitude r)) df in
        case gaussian_kde coordinates of
          Inl e \<Rightarrow> Inl e
        | Inr kde \<Rightarrow>
            let labels = DBSCAN 1 5 coordinates;
                hotspots = mask df (map (\<lambda>l. l \<noteq> -1) labels)
            in Inr (Metrics \<lparr>total_sightings = length df,
                  unique_locations = length (remdups (map (\<lambda>r. (latitude r, longitude r)) df)),
                  hotspot_count = length hotspots,
                  density_estimate = kde,
                  hotspots = hotspots\<rparr>))"

text \<open>
  The result of \<^verbatim>\<open>analyze_habitat_preferences\<close> is one bundle, or a dict from period
  to bundle, kept as an association list in insertion order.
\<close>

datatype habitat_result = Single metrics_bundle | PerPeriod "(period \<times> metrics_bundle) list"

text \<open>The loop \<^verbatim>\<open>for period, group in df_filtered.groupby(group_col)\<close>.\<close>

fun metrics_loop ::
  "(period \<times> dataframe) list \<Rightarrow> (period \<times> metrics_bundle) list \<Rightarrow> error + (period \<times> metrics_bundle) list" where
  "metrics_loop [] results = Inr results"
| "metrics_loop ((p, g) # rest) results =
     (case calculate_habitat_metrics g of
        Inl e \<Rightarrow> Inl e
      | Inr b \<Rightarrow> metrics_loop rest (results @ [(p, b)]))"

text \<open>
  Python truth of an optional string argument: \<^verbatim>\<open>None\<close> and the empty string are
  false.
\<close>

fun truthy :: "string option \<Rightarrow> bool" where
  "truthy None = False"
| "truthy (Some s) = (s \<noteq> [])"

definition analyze_habitat_preferences ::
  "dataframe \<Rightarrow> string option \<Rightarrow> string option \<Rightarrow> error + habitat_result" where
  "analyze_habitat_preferences df species time_period =
     (let df_filtered =
            (if truthy species then filter (\<lambda>r. Some (scientificname r) = species) df else df)
      in
        if truthy time_period then
          (if time_period = Some ''year'' then
             map_sum id PerPeriod
               (metrics_loop (map (\<lambda>(k, g). (Year k, g)) (groupby year df_filtered)) [])
           else if time_period = Some ''season'' then
             map_sum id PerPeriod
               (metrics_loop (map (\<lambda>(k, g). (Season k, g)) (groupby season df_filtered)) [])
           else Inl InvalidArgument)
        else map_sum id Single (calculate_habitat_metrics df_filtered))"

section \<open>Temporal aggregator\<close>

record centroid =
  period_key :: period
  centroid_lat :: real
  centroid_lon :: real
  sighting_count :: nat

text \<open>
  The aggregation \<^verbatim>\<open>.agg({'latitude': 'mean', 'longitude': 'mean', 'eventdate': 'count'})\<close>
  of one group, with the renamed columns.
\<close>

definition agg_centroid :: "period \<Rightarrow> dataframe \<Rightarrow> centroid" where
  "agg_centroid k g =
     \<lparr>period_key = k, centroid_lat = mean (map latitude g),
      centroid_lon = mean (map longitude g), sighting_count = length g\<rparr>"

text \<open>
  \<^verbatim>\<open>_calculate_centroids\<close>: the column is \<^verbatim>\<open>month\<close> when the window is the string
  \<^verbatim>\<open>'month'\<close>, and \<^verbatim>\<open>season\<close> in the \<^verbatim>\<open>else\<close> branch, whatever the window is.
\<close>

definition calculate_centroids :: "dataframe \<Rightarrow> string \<Rightarrow> centroid list" where
  "calculate_centroids df time_window =
     (if time_window = ''month''
      then map (\<lambda>(k, g). agg_centroid (Month k) g) (groupby month df)
      else map (\<lambda>(k, g). agg_centroid (Season k) g) (groupby season df))"

section \<open>Migration calculator\<close>

text \<open>
  \<^verbatim>\<open>_calculate_total_distance\<close>: the loop over \<^verbatim>\<open>range(len(centroids) - 1)\<close> appends
  one haversine distance per index; \<^verbatim>\<open>sum\<close> adds them from 0, left to right,
  in floating point.
\<close>

fun distances_loop :: "centroid list \<Rightarrow> nat list \<Rightarrow> real list \<Rightarrow> error + real list" where
  "distances_loop centroids [] distances = Inr distances"
| "distances_loop centroids (i # rest) distances =
     (case haversine_distance
             (centroid_lat (centroids ! i)) (centroid_lon (centroids ! i))
             (centroid_lat (centroids ! (i + 1))) (centroid_lon (centroids ! (i + 1))) of
        Inl e \<Rightarrow> Inl e
      | Inr distance \<Rightarrow> distances_loop centroids rest (distances @ [distance]))"

definition calculate_total_distance :: "centroid list \<Rightarrow> error + real" where
  "calculate_total_distance centroids =
     (if length centroids < 2 then Inr 0
      else case distances_loop centroids [0..<length centroids - 1] [] of
             Inl e \<Rightarrow> Inl e
           | Inr distances \<Rightarrow> Inr (py_sum distances))"

record season_range =
  latitude_range :: "real option \<times> real option"
  longitude_range :: "real option \<times> real option"

definition calculate_seasonal_ranges :: "dataframe \<Rightarrow> (string \<times> season_range) list" where
  "calculate_seasonal_ranges df =
     map (\<lambda>(s, g). (s,
            \<lparr>latitude_range = (series_min (map latitude g), series_max (map latitude g)),
             longitude_range = (series_min (map longitude g), series_max (map longitude g))\<rparr>))
       (groupby season df)"

record corridor =
  points :: "(real \<times> real) list"
  corridor_sighting_count :: nat
  time_span :: "int option \<times> int option"

text \<open>
  \<^verbatim>\<open>set(clustering.labels_)\<close>: the distinct labels. Python fixes no iteration order
  for a set; the model lists them in ascending order.
\<close>

definition label_set :: "int list \<Rightarrow> int list" where
  "label_set labels = sort (remdups labels)"

definition cluster_corridor :: "dataframe \<Rightarrow> int list \<Rightarrow> int \<Rightarrow> corridor" where
  "cluster_corridor df labels label =
     (let cluster_points = mask df (map (\<lambda>l. l = label) labels)
      in \<lparr>points = map (\<lambda>r. (latitude r, longitude r)) cluster_points,
          corridor_sighting_count = length cluster_points,
          time_span = (series_min (map eventdate cluster_points),
                       series_max (map eventdate cluster_points))\<rparr>)"

text \<open>
  \<^verbatim>\<open>_identify_migration_corridors\<close>: the clustering of the (longitude, latitude)
  pairs, then one corridor per label of the label set, the noise label skipped.
\<close>

definition identify_migration_corridors :: "dataframe \<Rightarrow> corridor list" where
  "identify_migration_corridors df =
     (let coordinates = map (\<lambda>r. (longitude r, latitude r)) df;
          labels = DBSCAN 1 5 coordinates
      in map (cluster_corridor df labels) (filter (\<lambda>label. label \<noteq> -1) (label_set labels)))"

record migration_metrics =
  centroids :: "centroid list"
  total_distance :: real
  seasonal_ranges :: "(string \<times> season_range) list"
  migration_corridors :: "corridor list"

datatype migration_result = EmptyResult | Migration migration_metrics

text \<open>
  \<^verbatim>\<open>analyze_migration_patterns\<close>: the frame of the species; the empty dict (after a
  logged warning) when it has no row; the four metrics otherwise.
\<close>

definition analyze_migration_patterns :: "dataframe \<Rightarrow> string \<Rightarrow> string \<Rightarrow> error + migration_result" where
  "analyze_migration_patterns df species time_window =
     (let df_species = filter (\<lambda>r. scientificname r = species) df in
      if df_species = [] then Inr EmptyResult
      else
        let cs = calculate_centroids df_species time_window in
        case calculate_total_distance cs of
          Inl e \<Rightarrow> Inl e
        | Inr d \<Rightarrow>
            Inr (Migration \<lparr>centroids = cs, total_distance = d,
                   seasonal_ranges = calculate_seasonal_ranges df_species,
                   migration_corridors = identify_migration_corridors df_species\<rparr>))"

section \<open>Cluster detector: what a labelling pass maintains\<close>

text \<open>
  Two indices are adjacent when their points lie within \<open>eps\<close> of each other; the
  core graph joins adjacent core points. The predicates below describe a label vector
  during the pass: labels are below the next cluster id; the neighbours of a labelled
  core point are labelled, core neighbours with the same label, unless they still wait
  on the stack of the cluster under construction; every labelled point is adjacent to
  a core point of its label; core points with one label are joined in the core graph;
  every point on the stack is adjacent to a core point of the cluster under
  construction; and the core points the pass has visited are labelled.
\<close>

definition adj :: "real \<Rightarrow> point list \<Rightarrow> nat \<Rightarrow> nat \<Rightarrow> bool" where
  "adj eps ps u v = (euclidean (ps ! u) (ps ! v) \<le> eps)"

definition core_edges :: "real \<Rightarrow> nat \<Rightarrow> point list \<Rightarrow> (nat \<times> nat) set" where
  "core_edges eps m ps =
     {(u, v). u < length ps \<and> v < length ps \<and> is_core eps m ps u \<and> is_core eps m ps v
              \<and> adj eps ps u v}"

definition labels_bounded :: "point list \<Rightarrow> nat \<Rightarrow> int list \<Rightarrow> bool" where
  "labels_bounded ps c lab = (\<forall>j<length ps. lab ! j = -1 \<or> (0 \<le> lab ! j \<and> lab ! j < int c))"

definition labels_closed :: "real \<Rightarrow> nat \<Rightarrow> point list \<Rightarrow> nat \<Rightarrow> nat list \<Rightarrow> int list \<Rightarrow> bool" where
  "labels_closed eps m ps c stack lab =
     (\<forall>v<length ps. \<forall>u<length ps. is_core eps m ps v \<and> lab ! v \<noteq> -1 \<and> adj eps ps v u \<longrightarrow>
        (lab ! u \<noteq> -1 \<and> (is_core eps m ps u \<longrightarrow> lab ! u = lab ! v))
        \<or> (lab ! v = int c \<and> lab ! u = -1 \<and> u \<in> set stack))"

definition labels_anchored :: "real \<Rightarrow> nat \<Rightarrow> point list \<Rightarrow> int list \<Rightarrow> bool" where
  "labels_anchored eps m ps lab =
     (\<forall>j<length ps. lab ! j \<noteq> -1 \<longrightarrow>
        (\<exists>v<length ps. is_core eps m ps v \<and> adj eps ps v j \<and> lab ! v = lab ! j))"

definition labels_linked :: "real \<Rightarrow> nat \<Rightarrow> point list \<Rightarrow> int list \<Rightarrow> bool" where
  "labels_linked eps m ps lab =
     (\<forall>v<length ps. \<forall>u<length ps.
        is_core eps m ps v \<and> is_core eps m ps u \<and> lab ! v \<noteq> -1 \<and> lab ! v = lab ! u \<longrightarrow>
        (v, u) \<in> (core_edges eps m ps)\<^sup>*)"

definition stack_ok :: "real \<Rightarrow> nat \<Rightarrow> point list \<Rightarrow> nat \<Rightarrow> nat list \<Rightarrow> int list \<Rightarrow> bool" where
  "stack_ok eps m ps c stack lab =
     (\<forall>u\<in>set stack. u < length ps
        \<and> (\<exists>v<length ps. is_core eps m ps v \<and> adj eps ps v u \<and> lab ! v = int c))"

definition cores_visited :: "real \<Rightarrow> nat \<Rightarrow> point list \<Rightarrow> nat set \<Rightarrow> int list \<Rightarrow> bool" where
  "cores_visited eps m ps P lab = (\<forall>i\<in>P. is_core eps m ps i \<longrightarrow> lab ! i \<noteq> -1)"

definition inv_in ::
  "real \<Rightarrow> nat \<Rightarrow> point list \<Rightarrow> nat set \<Rightarrow> nat \<Rightarrow> nat list \<Rightarrow> int list \<Rightarrow> bool" where
  "inv_in eps m ps P c stack lab =
     (length lab = length ps \<and> labels_bounded ps (Suc c) lab \<and> labels_closed eps m ps c stack lab
      \<and> labels_anchored eps m ps lab \<and> labels_linked eps m ps lab \<and> stack_ok eps m ps c stack lab
      \<and> cores_visited eps m ps P lab)"

definition inv_out :: "real \<Rightarrow> nat \<Rightarrow> point list \<Rightarrow> nat set \<Rightarrow> nat \<Rightarrow> int list \<Rightarrow> bool" where
  "inv_out eps m ps P c lab =
     (length lab = length ps \<and> labels_bounded ps c lab \<and> labels_closed eps m ps 0 [] lab
      \<and> labels_anchored eps m ps lab \<and> labels_linked eps m ps lab \<and> cores_visited eps m ps P lab)"

text \<open>
  The same notions for points instead of indices: they depend on the point set only,
  not on its order.
\<close>

definition core_point :: "real \<Rightarrow> nat \<Rightarrow> point list \<Rightarrow> point \<Rightarrow> bool" where
  "core_point eps m ps p = (m \<le> length (filter (\<lambda>q. euclidean p q \<le> eps) ps))"

definition point_edges :: "real \<Rightarrow> nat \<Rightarrow> point list \<Rightarrow> (point \<times> point) set" where
  "point_edges eps m ps =
     {(p, q). p \<in> set ps \<and> q \<in> set ps \<and> core_point eps m ps p \<and> core_point eps m ps q
              \<and> euclidean p q \<le> eps}"

text \<open>
  Two point sets for the cluster detector. In the first, the point (1, 0) is a border
  point within \<open>eps\<close> of the core points (0, 0) and (2, 0), which belong to two
  clusters. The second has one cluster with the two core points (0, 0) and (0, 1),
  and a far point.
\<close>

definition border_points :: "point list" where
  "border_points = [(0, 0), (-1, 0), (0, 1), (0, -1), (1, 0), (2, 0), (3, 0), (2, 1), (2, -1)]"

definition two_core_points :: "point list" where
  "two_core_points = [(0, 0), (-1, 0), (0, -1), (1, 0), (0, 1), (0, 2), (-1, 1), (1, 1), (10, 10)]"

section \<open>The season cycle of the specification, and sample frames\<close>

text \<open>
  The specification orders season centroids by the cycle Winter, Spring, Summer,
  Autumn: a list of season keys is in cycle order when it is the cycle restricted to
  the keys that occur.
\<close>

definition season_cycle :: "string list" where
  "season_cycle = [''Winter'', ''Spring'', ''Summer'', ''Autumn'']"

definition in_season_cycle_order :: "period list \<Rightarrow> bool" where
  "in_season_cycle_order ks = (ks = map Season (filter (\<lambda>s. Season s \<in> set ks) season_cycle))"

text \<open>
  Two small frames of a species \<open>X\<close>: one sighting in January, and the same with a
  second sighting in October.
\<close>

definition frame_one :: dataframe where
  "frame_one = [\<lparr>scientificname = ''X'', latitude = 10, longitude = 20, eventdate = 0,
                  year = 2010, month = 1, season = ''Winter''\<rparr>]"

definition frame_two :: dataframe where
  "frame_two =
     [\<lparr>scientificname = ''X'', latitude = 10, longitude = 20, eventdate = 0,
       year = 2010, month = 1, season = ''Winter''\<rparr>,
      \<lparr>scientificname = ''X'', latitude = 40, longitude = 20, eventdate = 1,
       year = 2010, month = 10, season = ''Autumn''\<rparr>]"

text \<open>
  A frame with five sightings around 10 N, 20 E, one degree apart, and one sighting
  far away at 40 N.
\<close>

definition frame_corridor :: dataframe where
  "frame_corridor =
     [\<lparr>scientificname = ''X'', latitude = 10, longitude = 20, eventdate = 3,
       year = 2010, month = 1, season = ''Winter''\<rparr>,
      \<lparr>scientificname = ''X'', latitude = 10, longitude = 21, eventdate = 1,
       year = 2010, month = 1, season = ''Winter''\<rparr>,
      \<lparr>scientificname = ''X'', latitude = 11, longitude = 20, eventdate = 5,
       year = 2010, month = 1, season = ''Winter''\<rparr>,
      \<lparr>scientificname = ''X'', latitude = 10, longitude = 19, eventdate = 2,
       year = 2010, month = 1, season = ''Winter''\<rparr>,
      \<lparr>scientificname = ''X'', latitude = 9, longitude = 20, eventdate = 4,
       year = 2010, month = 1, season = ''Winter''\<rparr>,
      \<lparr>scientificname = ''X'', latitude = 40, longitude = 20, eventdate = 9,
       year = 2010, month = 7, season = ''Summer''\<rparr>]"

section \<open>Great-circle distance of the specification, and sample paths\<close>





section \<open>Geometry: the haversine term\<close>

text \<open>
  The term under the square root, as a function of the two latitudes and the
  longitude difference, all in radians. In exact arithmetic it always lies between 0
  and 1, so the square root and the arc sine are taken where they are defined.
\<close>

definition hav_a :: "real \<Rightarrow> real \<Rightarrow> real \<Rightarrow> real" where
  "hav_a x y d = (sin ((y - x) / 2))\<^sup>2 + cos x * cos y * (sin (d / 2))\<^sup>2"

lemma sin_half_sq: "(sin (t / 2))\<^sup>2 = (1 - cos t) / (2::real)"
  using cos_double_sin [of "t / 2"] by simp

lemma hav_a_alt: "hav_a x y d = (1 - (sin x * sin y + cos x * cos y * cos d)) / 2"
  unfolding hav_a_def sin_half_sq cos_diff by (simp add: field_simps)

lemma prod_le_half_squares: "2 * \<bar>a * b\<bar> \<le> a\<^sup>2 + (b::real)\<^sup>2"
proof -
  have "0 \<le> (\<bar>a\<bar> - \<bar>b\<bar>)\<^sup>2" by simp
  then show ?thesis by (simp add: power2_diff abs_mult)
qed

lemma sphere_dot_bound: "\<bar>sin x * sin y + cos x * cos y * cos d\<bar> \<le> (1::real)"
proof -
  have "\<bar>cos x * cos y * cos d\<bar> = \<bar>cos x * cos y\<bar> * \<bar>cos d\<bar>" by (simp add: abs_mult)
  also have "\<dots> \<le> \<bar>cos x * cos y\<bar> * 1"
    by (intro mult_left_mono) simp_all
  finally have c: "\<bar>cos x * cos y * cos d\<bar> \<le> \<bar>cos x * cos y\<bar>" by simp
  have sx: "(sin x)\<^sup>2 + (cos x)\<^sup>2 = 1" and sy: "(sin y)\<^sup>2 + (cos y)\<^sup>2 = 1"
    by simp_all
  have "\<bar>sin x * sin y\<bar> + \<bar>cos x * cos y\<bar> \<le> 1"
    using prod_le_half_squares [of "sin x" "sin y"] prod_le_half_squares [of "cos x" "cos y"]
      sx sy by linarith
  with c show ?thesis by linarith
qed

lemma hav_a_bounds: "0 \<le> hav_a x y d \<and> hav_a x y d \<le> 1"
  using sphere_dot_bound [of x y d] unfolding hav_a_alt by (simp add: abs_le_iff)















section \<open>Floating-point addition: rounding facts\<close>



















section \<open>Cluster detector and pandas operations: basic facts\<close>

lemma euclidean_le_iff:
  "0 \<le> eps \<Longrightarrow> (euclidean p q \<le> eps) = ((fst p - fst q)\<^sup>2 + (snd p - snd q)\<^sup>2 \<le> eps\<^sup>2)"
  unfolding euclidean_def by (metis real_sqrt_le_iff real_sqrt_abs abs_of_nonneg)

text \<open>The neighbourhood test without the square root, for evaluation.\<close>

lemma neighborhood_code [code]:
  "neighborhood eps ps i =
     filter (\<lambda>j. 0 \<le> eps
        \<and> (fst (ps ! i) - fst (ps ! j))\<^sup>2 + (snd (ps ! i) - snd (ps ! j))\<^sup>2 \<le> eps\<^sup>2)
       [0..<length ps]"
proof (cases "0 \<le> eps")
  case True
  then show ?thesis by (simp add: neighborhood_def euclidean_le_iff)
next
  case False
  have "\<not> euclidean p q \<le> eps" for p q
  proof -
    have "0 \<le> euclidean p q" by (simp add: euclidean_def)
    with False show ?thesis by linarith
  qed
  with False show ?thesis by (simp add: neighborhood_def)
qed

lemma expand_length: "length (expand eps m ps c stack labels) = length labels"
  by (induction eps m ps c stack labels rule: expand.induct) (simp_all)

lemma dbscan_loop_length: "length (dbscan_loop eps m ps is c labels) = length labels"
  by (induction eps m ps "is" c labels rule: dbscan_loop.induct) (simp_all add: expand_length)

lemma DBSCAN_length: "length (DBSCAN eps m ps) = length ps"
  by (simp add: DBSCAN_def dbscan_loop_length)

lemma mask_snoc:
  "length bs = length xs \<Longrightarrow> mask (xs @ [x]) (bs @ [b]) = mask xs bs @ (if b then [x] else [])"
  by (simp add: mask_def)

lemma mask_nth:
  "length bs = length xs \<Longrightarrow> mask xs bs = map (\<lambda>i. xs ! i) (filter (\<lambda>i. bs ! i) [0..<length xs])"
proof (induction xs arbitrary: bs rule: rev_induct)
  case Nil
  then show ?case by (simp add: mask_def)
next
  case (snoc x xs)
  from snoc.prems obtain bs' b where bs: "bs = bs' @ [b]" and len: "length bs' = length xs"
    by (cases bs rule: rev_cases) auto
  have "map (\<lambda>i. (xs @ [x]) ! i) (filter (\<lambda>i. (bs' @ [b]) ! i) [0..<length xs])
        = map (\<lambda>i. xs ! i) (filter (\<lambda>i. bs' ! i) [0..<length xs])"
    using len by (intro map_cong filter_cong refl) (auto simp: nth_append)
  then show ?case
    using snoc.IH [OF len] len by (simp add: bs mask_snoc nth_append)
qed

lemma series_min_Min: "xs \<noteq> [] \<Longrightarrow> series_min xs = Some (Min (set xs))"
proof (cases xs)
  case (Cons a list)
  show ?thesis unfolding Cons series_min.simps Min.set_eq_fold ..
qed simp

lemma series_max_Max: "xs \<noteq> [] \<Longrightarrow> series_max xs = Some (Max (set xs))"
proof (cases xs)
  case (Cons a list)
  show ?thesis unfolding Cons series_max.simps Max.set_eq_fold ..
qed simp

lemma cluster_members_nonempty:
  assumes "l \<in> set labels"
  shows "filter (\<lambda>i. labels ! i = l) [0..<length labels] \<noteq> []"
proof -
  from assms obtain i where "i < length labels" "labels ! i = l"
    by (auto simp: in_set_conv_nth)
  then have "i \<in> set (filter (\<lambda>i. labels ! i = l) [0..<length labels])" by simp
  then show ?thesis by (metis empty_iff list.set(1)) 
qed

lemma cluster_corridor_members:
  assumes len: "length labels = length df" and l: "l \<in> set labels"
  defines "members \<equiv> filter (\<lambda>i. labels ! i = l) [0..<length df]"
  shows "members \<noteq> []"
    and "points (cluster_corridor df labels l) = map (\<lambda>i. (latitude (df ! i), longitude (df ! i))) members"
    and "corridor_sighting_count (cluster_corridor df labels l) = length members"
    and "time_span (cluster_corridor df labels l)
         = (Some (Min (set (map (\<lambda>i. eventdate (df ! i)) members))),
            Some (Max (set (map (\<lambda>i. eventdate (df ! i)) members))))"
proof -
  show ne: "members \<noteq> []"
    using cluster_members_nonempty [OF l] len by (simp add: members_def)
  have m: "mask df (map (\<lambda>l'. l' = l) labels) = map (\<lambda>i. df ! i) members"
  proof -
    have "filter (\<lambda>i. map (\<lambda>l'. l' = l) labels ! i) [0..<length df] = members"
      unfolding members_def using len by (intro filter_cong refl) simp
    then show ?thesis using len by (simp add: mask_nth)
  qed
  show "points (cluster_corridor df labels l) = map (\<lambda>i. (latitude (df ! i), longitude (df ! i))) members"
    by (simp add: cluster_corridor_def m comp_def)
  show "corridor_sighting_count (cluster_corridor df labels l) = length members"
    by (simp add: cluster_corridor_def m)
  show "time_span (cluster_corridor df labels l)
         = (Some (Min (set (map (\<lambda>i. eventdate (df ! i)) members))),
            Some (Max (set (map (\<lambda>i. eventdate (df ! i)) members))))"
    using ne by (simp add: cluster_corridor_def m comp_def series_min_Min series_max_Max)
qed

lemma count_by_labels:
  "distinct ls \<Longrightarrow>
   sum_list (map (\<lambda>l. length (filter (\<lambda>i. f i = l) xs)) ls) = length (filter (\<lambda>i. f i \<in> set ls) xs)"
proof (induction ls)
  case Nil
  then show ?case by simp
next
  case (Cons l ls)
  have "length (filter (\<lambda>i. f i \<in> set (l # ls)) xs)
        = length (filter (\<lambda>i. f i = l) xs) + length (filter (\<lambda>i. f i \<in> set ls) xs)"
    using Cons.prems by (induction xs) auto
  with Cons show ?case by simp
qed

lemma length_filter_nth:
  "length (filter P xs) = length (filter (\<lambda>i. P (xs ! i)) [0..<length xs])"
proof -
  have "filter P xs = filter P (map (\<lambda>i. xs ! i) [0..<length xs])"
    by (simp add: map_nth)
  also have "\<dots> = map (\<lambda>i. xs ! i) (filter (\<lambda>i. P (xs ! i)) [0..<length xs])"
    by (simp add: filter_map comp_def)
  finally show ?thesis by simp
qed

lemma corridors_of_labels:
  assumes len: "length labels = length df"
  defines "ls \<equiv> filter (\<lambda>label. label \<noteq> -1) (label_set labels)"
  defines "cs \<equiv> map (cluster_corridor df labels) ls"
  shows "distinct ls" and "set ls = set labels - {-1}" and "length cs = length ls"
    and "\<forall>k<length ls.
           let members = filter (\<lambda>i. labels ! i = ls ! k) [0..<length df];
               c = cs ! k
           in members \<noteq> []
              \<and> points c = map (\<lambda>i. (latitude (df ! i), longitude (df ! i))) members
              \<and> corridor_sighting_count c = length members
              \<and> time_span c = (Some (Min (set (map (\<lambda>i. eventdate (df ! i)) members))),
                               Some (Max (set (map (\<lambda>i. eventdate (df ! i)) members))))"
    and "sum_list (map corridor_sighting_count cs) = length (filter (\<lambda>l. l \<noteq> -1) labels)"
proof -
  show d: "distinct ls" by (simp add: ls_def label_set_def)
  show s: "set ls = set labels - {-1}" by (auto simp: ls_def label_set_def)
  show "length cs = length ls" by (simp add: cs_def)
  show "\<forall>k<length ls.
           let members = filter (\<lambda>i. labels ! i = ls ! k) [0..<length df];
               c = cs ! k
           in members \<noteq> []
              \<and> points c = map (\<lambda>i. (latitude (df ! i), longitude (df ! i))) members
              \<and> corridor_sighting_count c = length members
              \<and> time_span c = (Some (Min (set (map (\<lambda>i. eventdate (df ! i)) members))),
                               Some (Max (set (map (\<lambda>i. eventdate (df ! i)) members))))"
  proof (intro allI impI)
    fix k assume k: "k < length ls"
    then have "ls ! k \<in> set ls" by simp
    then have l: "ls ! k \<in> set labels" using s by blast
    have c: "cs ! k = cluster_corridor df labels (ls ! k)" using k by (simp add: cs_def)
    show "let members = filter (\<lambda>i. labels ! i = ls ! k) [0..<length df];
               c = cs ! k
           in members \<noteq> []
              \<and> points c = map (\<lambda>i. (latitude (df ! i), longitude (df ! i))) members
              \<and> corridor_sighting_count c = length members
              \<and> time_span c = (Some (Min (set (map (\<lambda>i. eventdate (df ! i)) members))),
                               Some (Max (set (map (\<lambda>i. eventdate (df ! i)) members))))"
      unfolding Let_def c
      using cluster_corridor_members [OF len l] by (intro conjI)
  qed
  have "map corridor_sighting_count cs
        = map (\<lambda>l. length (filter (\<lambda>i. labels ! i = l) [0..<length df])) ls"
    unfolding cs_def map_map
  proof (rule map_cong [OF refl])
    fix l assume "l \<in> set ls"
    then have "l \<in> set labels" using s by blast
    then show "(corridor_sighting_count \<circ> cluster_corridor df labels) l
               = length (filter (\<lambda>i. labels ! i = l) [0..<length df])"
      using cluster_corridor_members(3) [OF len] by simp
  qed
  then have "sum_list (map corridor_sighting_count cs)
        = length (filter (\<lambda>i. labels ! i \<in> set ls) [0..<length df])"
    using count_by_labels [OF d, of "\<lambda>i. labels ! i" "[0..<length df]"] by simp
  also have "\<dots> = length (filter (\<lambda>i. labels ! i \<noteq> -1) [0..<length labels])"
    unfolding len by (rule arg_cong [of _ _ length], rule filter_cong [OF refl]) (simp add: s len)
  also have "\<dots> = length (filter (\<lambda>l. l \<noteq> -1) labels)"
    by (rule length_filter_nth [symmetric])
  finally show "sum_list (map corridor_sighting_count cs) = length (filter (\<lambda>l. l \<noteq> -1) labels)" .
qed

section \<open>Cluster detector: the labels of a finished pass\<close>

lemma euclidean_sym: "euclidean p q = euclidean q p"
  by (simp add: euclidean_def power2_commute)

lemma adj_sym: "adj eps ps u v = adj eps ps v u"
  by (simp add: adj_def euclidean_sym)

lemma adj_refl: "0 \<le> eps \<Longrightarrow> adj eps ps u u"
  by (simp add: adj_def euclidean_def)

lemma in_neighborhood:
  "v \<in> set (neighborhood eps ps u) \<longleftrightarrow> v < length ps \<and> adj eps ps u v"
  by (auto simp: neighborhood_def adj_def)

lemma core_edges_sym: "(u, v) \<in> core_edges eps m ps \<Longrightarrow> (v, u) \<in> core_edges eps m ps"
  by (simp add: core_edges_def adj_sym)

lemma core_path_sym:
  "(u, v) \<in> (core_edges eps m ps)\<^sup>* \<Longrightarrow> (v, u) \<in> (core_edges eps m ps)\<^sup>*"
proof (induction rule: rtrancl_induct)
  case base
  show ?case by simp
next
  case (step y z)
  from step.hyps(2) have "(z, y) \<in> core_edges eps m ps" by (rule core_edges_sym)
  then show ?case using step.IH by (rule converse_rtrancl_into_rtrancl)
qed

lemma labels_closedD:
  "labels_closed eps m ps c stack lab \<Longrightarrow> v < length ps \<Longrightarrow> u < length ps \<Longrightarrow> is_core eps m ps v
   \<Longrightarrow> lab ! v \<noteq> -1 \<Longrightarrow> adj eps ps v u
   \<Longrightarrow> (lab ! u \<noteq> -1 \<and> (is_core eps m ps u \<longrightarrow> lab ! u = lab ! v))
        \<or> (lab ! v = int c \<and> lab ! u = -1 \<and> u \<in> set stack)"
  unfolding labels_closed_def by blast

lemma labels_closedI:
  "(\<And>v u. v < length ps \<Longrightarrow> u < length ps \<Longrightarrow> is_core eps m ps v
      \<Longrightarrow> lab ! v \<noteq> -1 \<Longrightarrow> adj eps ps v u
      \<Longrightarrow> (lab ! u \<noteq> -1 \<and> (is_core eps m ps u \<longrightarrow> lab ! u = lab ! v))
        \<or> (lab ! v = int c \<and> lab ! u = -1 \<and> u \<in> set stack))
   \<Longrightarrow> labels_closed eps m ps c stack lab"
  unfolding labels_closed_def by blast

lemma labels_anchoredD:
  "labels_anchored eps m ps lab \<Longrightarrow> j < length ps \<Longrightarrow> lab ! j \<noteq> -1
   \<Longrightarrow> \<exists>v<length ps. is_core eps m ps v \<and> adj eps ps v j \<and> lab ! v = lab ! j"
  unfolding labels_anchored_def by blast

lemma labels_anchoredI:
  "(\<And>j. j < length ps \<Longrightarrow> lab ! j \<noteq> -1
      \<Longrightarrow> \<exists>v<length ps. is_core eps m ps v \<and> adj eps ps v j \<and> lab ! v = lab ! j)
   \<Longrightarrow> labels_anchored eps m ps lab"
  unfolding labels_anchored_def by blast

lemma labels_linkedD:
  "labels_linked eps m ps lab \<Longrightarrow> v < length ps \<Longrightarrow> u < length ps \<Longrightarrow> is_core eps m ps v
   \<Longrightarrow> is_core eps m ps u \<Longrightarrow> lab ! v \<noteq> -1 \<Longrightarrow> lab ! v = lab ! u
   \<Longrightarrow> (v, u) \<in> (core_edges eps m ps)\<^sup>*"
  unfolding labels_linked_def by blast

lemma labels_linkedI:
  "(\<And>v u. v < length ps \<Longrightarrow> u < length ps \<Longrightarrow> is_core eps m ps v
      \<Longrightarrow> is_core eps m ps u \<Longrightarrow> lab ! v \<noteq> -1 \<Longrightarrow> lab ! v = lab ! u
      \<Longrightarrow> (v, u) \<in> (core_edges eps m ps)\<^sup>*)
   \<Longrightarrow> labels_linked eps m ps lab"
  unfolding labels_linked_def by blast

lemma stack_okD:
  "stack_ok eps m ps c stack lab \<Longrightarrow> u \<in> set stack
   \<Longrightarrow> u < length ps \<and> (\<exists>v<length ps. is_core eps m ps v \<and> adj eps ps v u \<and> lab ! v = int c)"
  unfolding stack_ok_def by blast

lemma stack_okI:
  "(\<And>u. u \<in> set stack
      \<Longrightarrow> u < length ps \<and> (\<exists>v<length ps. is_core eps m ps v \<and> adj eps ps v u \<and> lab ! v = int c))
   \<Longrightarrow> stack_ok eps m ps c stack lab"
  unfolding stack_ok_def by blast

lemma labels_boundedD:
  "labels_bounded ps c lab \<Longrightarrow> j < length ps \<Longrightarrow> lab ! j = -1 \<or> (0 \<le> lab ! j \<and> lab ! j < int c)"
  unfolding labels_bounded_def by blast

lemma labels_boundedI:
  "(\<And>j. j < length ps \<Longrightarrow> lab ! j = -1 \<or> (0 \<le> lab ! j \<and> lab ! j < int c))
   \<Longrightarrow> labels_bounded ps c lab"
  unfolding labels_bounded_def by blast

lemma cores_visitedD: "cores_visited eps m ps P lab \<Longrightarrow> i \<in> P \<Longrightarrow> is_core eps m ps i \<Longrightarrow> lab ! i \<noteq> -1"
  unfolding cores_visited_def by blast

lemma cores_visitedI:
  "(\<And>i. i \<in> P \<Longrightarrow> is_core eps m ps i \<Longrightarrow> lab ! i \<noteq> -1) \<Longrightarrow> cores_visited eps m ps P lab"
  unfolding cores_visited_def by blast

lemma labels_closed_nil: "labels_closed eps m ps c [] lab \<Longrightarrow> labels_closed eps m ps c' [] lab"
proof (rule labels_closedI)
  fix v u
  assume "labels_closed eps m ps c [] lab" "v < length ps" "u < length ps" "is_core eps m ps v"
    "lab ! v \<noteq> -1" "adj eps ps v u"
  then have "(lab ! u \<noteq> -1 \<and> (is_core eps m ps u \<longrightarrow> lab ! u = lab ! v))
        \<or> (lab ! v = int c \<and> lab ! u = -1 \<and> u \<in> set [])"
    by (rule labels_closedD)
  then show "(lab ! u \<noteq> -1 \<and> (is_core eps m ps u \<longrightarrow> lab ! u = lab ! v))
        \<or> (lab ! v = int c' \<and> lab ! u = -1 \<and> u \<in> set [])"
    by simp
qed

lemma inv_in_done: "inv_in eps m ps P c [] lab \<Longrightarrow> inv_out eps m ps P (Suc c) lab"
  unfolding inv_in_def inv_out_def by (blast intro: labels_closed_nil)

lemma inv_out_init: "inv_out eps m ps {} 0 (replicate (length ps) (-1))"
  unfolding inv_out_def
  by (intro conjI labels_closedI labels_anchoredI labels_linkedI labels_boundedI cores_visitedI) simp_all

lemma inv_out_skip:
  assumes "inv_out eps m ps P c lab" and "lab ! i \<noteq> -1 \<or> \<not> is_core eps m ps i"
  shows "inv_out eps m ps (insert i P) c lab"
proof -
  from assms(1) have v: "cores_visited eps m ps P lab" unfolding inv_out_def by blast
  have "cores_visited eps m ps (insert i P) lab"
  proof (rule cores_visitedI)
    fix k assume "k \<in> insert i P" "is_core eps m ps k"
    then show "lab ! k \<noteq> -1" using assms(2) cores_visitedD [OF v] by blast
  qed
  with assms(1) show ?thesis unfolding inv_out_def by blast
qed

text \<open>A step of the expansion that labels the point on top of the stack.\<close>

lemma step_bounded:
  assumes b: "labels_bounded ps (Suc c) lab" and len: "length lab = length ps"
  shows "labels_bounded ps (Suc c) (lab[u := int c])"
proof (rule labels_boundedI)
  fix j assume j: "j < length ps"
  show "lab[u := int c] ! j = -1 \<or> (0 \<le> lab[u := int c] ! j \<and> lab[u := int c] ! j < int (Suc c))"
  proof (cases "j = u")
    case True
    with j len show ?thesis by simp
  next
    case False
    with labels_boundedD [OF b j] show ?thesis by simp
  qed
qed

lemma step_closed:
  assumes cl: "labels_closed eps m ps c (u # st) lab" and len: "length lab = length ps"
    and u: "u < length ps" and un: "lab ! u = -1"
  shows "labels_closed eps m ps c ((if is_core eps m ps u then neighborhood eps ps u else []) @ st)
           (lab[u := int c])"
proof (rule labels_closedI)
  let ?lab = "lab[u := int c]"
  let ?st = "(if is_core eps m ps u then neighborhood eps ps u else []) @ st"
  fix v w
  assume v: "v < length ps" and w: "w < length ps" and cv: "is_core eps m ps v"
    and lv: "?lab ! v \<noteq> -1" and a: "adj eps ps v w"
  have upd: "\<And>j. j < length ps \<Longrightarrow> ?lab ! j = (if j = u then int c else lab ! j)"
    using len by (simp add: nth_list_update)
  show "(?lab ! w \<noteq> -1 \<and> (is_core eps m ps w \<longrightarrow> ?lab ! w = ?lab ! v))
        \<or> (?lab ! v = int c \<and> ?lab ! w = -1 \<and> w \<in> set ?st)"
  proof (cases "v = u")
    case True
    then have lvc: "?lab ! v = int c" using upd [OF v] by simp
    from True a w cv have win: "w \<in> set ?st" by (simp add: in_neighborhood)
    show ?thesis
    proof (cases "?lab ! w = -1")
      case True
      with lvc win show ?thesis by blast
    next
      case False
      have "?lab ! w = int c" if cw: "is_core eps m ps w"
      proof (cases "w = u")
        case True
        then show ?thesis using upd [OF w] by simp
      next
        case wu: False
        then have lw: "lab ! w \<noteq> -1" using False upd [OF w] by simp
        have "adj eps ps w u" using a \<open>v = u\<close> by (simp add: adj_sym)
        from labels_closedD [OF cl w u cw lw this] un have "lab ! w = int c" by blast
        then show ?thesis using wu upd [OF w] by simp
      qed
      with False lvc show ?thesis by simp
    qed
  next
    case False
    then have lv': "lab ! v \<noteq> -1" and lveq: "?lab ! v = lab ! v" using lv upd [OF v] by simp_all
    from labels_closedD [OF cl v w cv lv' a]
    consider (1) "lab ! w \<noteq> -1" "is_core eps m ps w \<longrightarrow> lab ! w = lab ! v"
      | (2) "lab ! v = int c" "lab ! w = -1" "w \<in> set (u # st)"
      by blast
    then show ?thesis
    proof cases
      case 1
      then have "w \<noteq> u" using un by blast
      then have "?lab ! w = lab ! w" using upd [OF w] by simp
      with 1 lveq show ?thesis by simp
    next
      case 2
      show ?thesis
      proof (cases "w = u")
        case True
        then have "?lab ! w = int c" using upd [OF w] by simp
        with 2(1) lveq show ?thesis by simp
      next
        case False
        then have "?lab ! w = -1" using upd [OF w] 2(2) by simp
        moreover have "w \<in> set ?st" using 2(3) False by simp
        ultimately show ?thesis using 2(1) lveq by simp
      qed
    qed
  qed
qed

lemma step_anchored:
  assumes an: "labels_anchored eps m ps lab" and so: "stack_ok eps m ps c (u # st) lab"
    and len: "length lab = length ps" and un: "lab ! u = -1"
  shows "labels_anchored eps m ps (lab[u := int c])"
proof (rule labels_anchoredI)
  let ?lab = "lab[u := int c]"
  fix j assume j: "j < length ps" and lj: "?lab ! j \<noteq> -1"
  have upd: "\<And>j. j < length ps \<Longrightarrow> ?lab ! j = (if j = u then int c else lab ! j)"
    using len by (simp add: nth_list_update)
  show "\<exists>v<length ps. is_core eps m ps v \<and> adj eps ps v j \<and> ?lab ! v = ?lab ! j"
  proof (cases "j = u")
    case True
    from stack_okD [OF so, of u] obtain v where
      v: "v < length ps" "is_core eps m ps v" "adj eps ps v u" "lab ! v = int c"
      by auto
    from v(4) un have "v \<noteq> u" by auto
    then have "?lab ! v = int c" using upd [OF v(1)] v(4) by simp
    moreover have "?lab ! j = int c" using True upd [OF j] by simp
    ultimately show ?thesis using v True by auto
  next
    case False
    then have lj': "lab ! j \<noteq> -1" and e: "?lab ! j = lab ! j" using lj upd [OF j] by simp_all
    from labels_anchoredD [OF an j lj'] obtain v where
      v: "v < length ps" "is_core eps m ps v" "adj eps ps v j" "lab ! v = lab ! j"
      by auto
    from v(4) lj' un have "v \<noteq> u" by auto
    then have "?lab ! v = lab ! v" using upd [OF v(1)] by simp
    with v e show ?thesis by auto
  qed
qed

lemma step_linked:
  assumes li: "labels_linked eps m ps lab" and so: "stack_ok eps m ps c (u # st) lab"
    and len: "length lab = length ps" and un: "lab ! u = -1"
  shows "labels_linked eps m ps (lab[u := int c])"
proof (rule labels_linkedI)
  let ?lab = "lab[u := int c]"
  let ?E = "core_edges eps m ps"
  fix v w
  assume v: "v < length ps" and w: "w < length ps" and cv: "is_core eps m ps v"
    and cw: "is_core eps m ps w" and lv: "?lab ! v \<noteq> -1" and eq: "?lab ! v = ?lab ! w"
  have upd: "\<And>j. j < length ps \<Longrightarrow> ?lab ! j = (if j = u then int c else lab ! j)"
    using len by (simp add: nth_list_update)
  text \<open>A core point that gets the label now is joined to every core point of the cluster.\<close>
  have new: "(u, x) \<in> ?E\<^sup>*"
    if cu: "is_core eps m ps u" and x: "x < length ps" "is_core eps m ps x" "lab ! x = int c" for x
  proof -
    from stack_okD [OF so, of u] obtain y where
      y: "u < length ps" "y < length ps" "is_core eps m ps y" "adj eps ps y u" "lab ! y = int c"
      by auto
    have "(u, y) \<in> ?E" using y cu by (simp add: core_edges_def adj_sym)
    moreover have "(y, x) \<in> ?E\<^sup>*"
      using labels_linkedD [OF li y(2) x(1) y(3) x(2)] y(5) x(3) by simp
    ultimately show ?thesis by (rule converse_rtrancl_into_rtrancl)
  qed
  show "(v, w) \<in> ?E\<^sup>*"
  proof (cases "v = u")
    case True
    show ?thesis
    proof (cases "w = u")
      case True
      with \<open>v = u\<close> show ?thesis by simp
    next
      case False
      then have "lab ! w = int c" using eq \<open>v = u\<close> upd [OF v] upd [OF w] by simp
      then show ?thesis using new [OF _ w cw] cv \<open>v = u\<close> by simp
    qed
  next
    case vu: False
    show ?thesis
    proof (cases "w = u")
      case True
      then have "lab ! v = int c" using eq vu upd [OF v] upd [OF w] by simp
      then have "(u, v) \<in> ?E\<^sup>*" using new [OF _ v cv] cw True by simp
      then show ?thesis using True by (simp add: core_path_sym)
    next
      case False
      then have "lab ! v \<noteq> -1" "lab ! v = lab ! w"
        using lv eq vu upd [OF v] upd [OF w] by simp_all
      then show ?thesis using labels_linkedD [OF li v w cv cw] by simp
    qed
  qed
qed

lemma step_stack_ok:
  assumes so: "stack_ok eps m ps c (u # st) lab"
    and len: "length lab = length ps" and un: "lab ! u = -1"
  shows "stack_ok eps m ps c ((if is_core eps m ps u then neighborhood eps ps u else []) @ st)
           (lab[u := int c])"
proof (rule stack_okI)
  let ?lab = "lab[u := int c]"
  fix w assume w: "w \<in> set ((if is_core eps m ps u then neighborhood eps ps u else []) @ st)"
  have upd: "\<And>j. j < length ps \<Longrightarrow> ?lab ! j = (if j = u then int c else lab ! j)"
    using len by (simp add: nth_list_update)
  have u: "u < length ps" using stack_okD [OF so, of u] by simp
  from w consider (old) "w \<in> set st" | (new) "is_core eps m ps u" "w \<in> set (neighborhood eps ps u)"
    by (auto split: if_splits)
  then show "w < length ps \<and> (\<exists>v<length ps. is_core eps m ps v \<and> adj eps ps v w \<and> ?lab ! v = int c)"
  proof cases
    case old
    with stack_okD [OF so, of w] obtain v where
      v: "w < length ps" "v < length ps" "is_core eps m ps v" "adj eps ps v w" "lab ! v = int c"
      by auto
    then have "?lab ! v = int c" using upd [OF v(2)] by simp
    with v show ?thesis by auto
  next
    case new
    then have "w < length ps" "adj eps ps u w" by (simp_all add: in_neighborhood)
    moreover have "?lab ! u = int c" using upd [OF u] by simp
    ultimately show ?thesis using new(1) u by auto
  qed
qed

lemma step_visited:
  assumes vi: "cores_visited eps m ps P lab" and len: "length lab = length ps"
    and u: "u < length ps" and un: "lab ! u = -1"
  shows "cores_visited eps m ps (insert u P) (lab[u := int c])"
proof (rule cores_visitedI)
  fix i assume i: "i \<in> insert u P" and ci: "is_core eps m ps i"
  show "lab[u := int c] ! i \<noteq> -1"
  proof (cases "i = u")
    case True
    with u len show ?thesis by simp
  next
    case False
    with i have "i \<in> P" by simp
    from cores_visitedD [OF vi this ci] False show ?thesis by simp
  qed
qed

lemma cores_visited_mono: "cores_visited eps m ps P lab \<Longrightarrow> Q \<subseteq> P \<Longrightarrow> cores_visited eps m ps Q lab"
  unfolding cores_visited_def by blast

lemma inv_in_label:
  assumes inv: "inv_in eps m ps P c (u # st) lab" and u: "u < length lab" and un: "lab ! u = -1"
  shows "inv_in eps m ps P c ((if is_core eps m ps u then neighborhood eps ps u else []) @ st)
           (lab[u := int c])"
proof -
  from inv have len: "length lab = length ps" and b: "labels_bounded ps (Suc c) lab"
    and cl: "labels_closed eps m ps c (u # st) lab" and an: "labels_anchored eps m ps lab"
    and li: "labels_linked eps m ps lab" and so: "stack_ok eps m ps c (u # st) lab"
    and vi: "cores_visited eps m ps P lab"
    unfolding inv_in_def by simp_all
  from u len have u': "u < length ps" by simp
  have "cores_visited eps m ps (insert u P) (lab[u := int c])"
    using vi len u' un by (rule step_visited)
  then have "cores_visited eps m ps P (lab[u := int c])"
    by (rule cores_visited_mono) blast
  moreover have "length (lab[u := int c]) = length ps" using len by simp
  moreover note step_bounded [OF b len, of u] step_closed [OF cl len u' un]
    step_anchored [OF an so len un] step_linked [OF li so len un] step_stack_ok [OF so len un]
  ultimately show ?thesis unfolding inv_in_def by blast
qed

lemma inv_in_skip:
  assumes inv: "inv_in eps m ps P c (u # st) lab" and sk: "length lab \<le> u \<or> lab ! u \<noteq> -1"
  shows "inv_in eps m ps P c st lab"
proof -
  from inv have len: "length lab = length ps" and b: "labels_bounded ps (Suc c) lab"
    and cl: "labels_closed eps m ps c (u # st) lab" and an: "labels_anchored eps m ps lab"
    and li: "labels_linked eps m ps lab" and so: "stack_ok eps m ps c (u # st) lab"
    and vi: "cores_visited eps m ps P lab"
    unfolding inv_in_def by simp_all
  have "labels_closed eps m ps c st lab"
  proof (rule labels_closedI)
    fix v w
    assume v: "v < length ps" and w: "w < length ps" and cv: "is_core eps m ps v"
      and lv: "lab ! v \<noteq> -1" and a: "adj eps ps v w"
    from labels_closedD [OF cl v w cv lv a]
    consider (1) "lab ! w \<noteq> -1" "is_core eps m ps w \<longrightarrow> lab ! w = lab ! v"
      | (2) "lab ! v = int c" "lab ! w = -1" "w \<in> set (u # st)"
      by blast
    then show "(lab ! w \<noteq> -1 \<and> (is_core eps m ps w \<longrightarrow> lab ! w = lab ! v))
        \<or> (lab ! v = int c \<and> lab ! w = -1 \<and> w \<in> set st)"
    proof cases
      case 1
      then show ?thesis by blast
    next
      case 2
      have "w \<noteq> u" using sk 2(2) w len by auto
      with 2 show ?thesis by simp
    qed
  qed
  moreover have "stack_ok eps m ps c st lab"
  proof (rule stack_okI)
    fix w assume "w \<in> set st"
    then have "w \<in> set (u # st)" by simp
    then show "w < length ps \<and> (\<exists>v<length ps. is_core eps m ps v \<and> adj eps ps v w \<and> lab ! v = int c)"
      by (rule stack_okD [OF so])
  qed
  ultimately show ?thesis using len b an li vi unfolding inv_in_def by blast
qed

lemma expand_inv:
  "inv_in eps m ps P c st lab \<Longrightarrow> inv_in eps m ps P c [] (expand eps m ps c st lab)"
proof (induction eps m ps c st lab rule: expand.induct)
  case (1 eps m ps c lab)
  then show ?case by simp
next
  case (2 eps m ps c v stack lab)
  show ?case
  proof (cases "length lab \<le> v \<or> lab ! v \<noteq> -1")
    case True
    have e: "expand eps m ps c (v # stack) lab = expand eps m ps c stack lab"
      by (simp only: expand.simps True if_True)
    from "2.prems" True have "inv_in eps m ps P c stack lab" by (rule inv_in_skip)
    with True show ?thesis unfolding e by (rule "2.IH"(1))
  next
    case False
    have e: "expand eps m ps c (v # stack) lab
             = expand eps m ps c
                 ((if is_core eps m ps v then neighborhood eps ps v else []) @ stack)
                 (lab[v := int c])"
      by (simp only: expand.simps False if_False)
    from False have "v < length lab" "lab ! v = -1" by simp_all
    with "2.prems" have "inv_in eps m ps P c
        ((if is_core eps m ps v then neighborhood eps ps v else []) @ stack) (lab[v := int c])"
      by (rule inv_in_label)
    with False show ?thesis unfolding e by (rule "2.IH"(2))
  qed
qed

text \<open>The first step of an expansion: the seed gets the new label.\<close>

lemma inv_in_start:
  assumes io: "inv_out eps m ps P c lab" and i: "i < length ps" and ci: "is_core eps m ps i"
    and un: "lab ! i = -1" and eps: "0 \<le> eps"
  shows "inv_in eps m ps (insert i P) c (neighborhood eps ps i @ []) (lab[i := int c])"
proof -
  let ?lab = "lab[i := int c]"
  let ?st = "neighborhood eps ps i @ []"
  let ?E = "core_edges eps m ps"
  from io have len: "length lab = length ps" and b: "labels_bounded ps c lab"
    and cl: "labels_closed eps m ps 0 [] lab" and an: "labels_anchored eps m ps lab"
    and li: "labels_linked eps m ps lab" and vi: "cores_visited eps m ps P lab"
    unfolding inv_out_def by simp_all
  have upd: "\<And>j. j < length ps \<Longrightarrow> ?lab ! j = (if j = i then int c else lab ! j)"
    using len by (simp add: nth_list_update)
  have old: "lab ! j \<noteq> int c" if "j < length ps" for j
    using labels_boundedD [OF b that] by auto
  have "labels_bounded ps (Suc c) ?lab"
  proof (rule labels_boundedI)
    fix j assume j: "j < length ps"
    show "?lab ! j = -1 \<or> (0 \<le> ?lab ! j \<and> ?lab ! j < int (Suc c))"
      using labels_boundedD [OF b j] upd [OF j] by auto
  qed
  moreover have "labels_closed eps m ps c ?st ?lab"
  proof (rule labels_closedI)
    fix v w
    assume v: "v < length ps" and w: "w < length ps" and cv: "is_core eps m ps v"
      and lv: "?lab ! v \<noteq> -1" and a: "adj eps ps v w"
    show "(?lab ! w \<noteq> -1 \<and> (is_core eps m ps w \<longrightarrow> ?lab ! w = ?lab ! v))
        \<or> (?lab ! v = int c \<and> ?lab ! w = -1 \<and> w \<in> set ?st)"
    proof (cases "v = i")
      case True
      then have lvc: "?lab ! v = int c" using upd [OF v] by simp
      from True a w have win: "w \<in> set ?st" by (simp add: in_neighborhood)
      show ?thesis
      proof (cases "?lab ! w = -1")
        case True
        with lvc win show ?thesis by blast
      next
        case False
        have "?lab ! w = int c" if cw: "is_core eps m ps w"
        proof (cases "w = i")
          case True
          then show ?thesis using upd [OF w] by simp
        next
          case wi: False
          then have lw: "lab ! w \<noteq> -1" using False upd [OF w] by simp
          have "adj eps ps w i" using a \<open>v = i\<close> by (simp add: adj_sym)
          from labels_closedD [OF cl w i cw lw this] un show ?thesis by simp
        qed
        with False lvc show ?thesis by simp
      qed
    next
      case False
      then have lv': "lab ! v \<noteq> -1" and lveq: "?lab ! v = lab ! v"
        using lv upd [OF v] by simp_all
      from labels_closedD [OF cl v w cv lv' a]
      have 1: "lab ! w \<noteq> -1" "is_core eps m ps w \<longrightarrow> lab ! w = lab ! v" by simp_all
      then have "w \<noteq> i" using un by blast
      then have "?lab ! w = lab ! w" using upd [OF w] by simp
      with 1 lveq show ?thesis by simp
    qed
  qed
  moreover have "labels_anchored eps m ps ?lab"
  proof (rule labels_anchoredI)
    fix j assume j: "j < length ps" and lj: "?lab ! j \<noteq> -1"
    show "\<exists>v<length ps. is_core eps m ps v \<and> adj eps ps v j \<and> ?lab ! v = ?lab ! j"
    proof (cases "j = i")
      case True
      then show ?thesis using i ci adj_refl [OF eps] by blast
    next
      case False
      then have lj': "lab ! j \<noteq> -1" and e: "?lab ! j = lab ! j" using lj upd [OF j] by simp_all
      from labels_anchoredD [OF an j lj'] obtain v where
        v: "v < length ps" "is_core eps m ps v" "adj eps ps v j" "lab ! v = lab ! j"
        by auto
      from v(4) lj' un have "v \<noteq> i" by auto
      then have "?lab ! v = lab ! v" using upd [OF v(1)] by simp
      with v e show ?thesis by auto
    qed
  qed
  moreover have "labels_linked eps m ps ?lab"
  proof (rule labels_linkedI)
    fix v w
    assume v: "v < length ps" and w: "w < length ps" and cv: "is_core eps m ps v"
      and cw: "is_core eps m ps w" and lv: "?lab ! v \<noteq> -1" and eq: "?lab ! v = ?lab ! w"
    show "(v, w) \<in> ?E\<^sup>*"
    proof (cases "v = i")
      case True
      then have "?lab ! w = int c" using eq upd [OF v] by simp
      then have "w = i" using upd [OF w] old [OF w] by (cases "w = i") simp_all
      with True show ?thesis by simp
    next
      case vi: False
      then have lv': "lab ! v \<noteq> -1" "?lab ! v = lab ! v" using lv upd [OF v] by simp_all
      have "w \<noteq> i"
      proof
        assume "w = i"
        then have "?lab ! w = int c" using upd [OF w] by simp
        with eq lv'(2) old [OF v] show False by simp
      qed
      then have "lab ! v = lab ! w" using eq lv'(2) upd [OF w] by simp
      with lv'(1) show ?thesis using labels_linkedD [OF li v w cv cw] by simp
    qed
  qed
  moreover have "stack_ok eps m ps c ?st ?lab"
  proof (rule stack_okI)
    fix w assume "w \<in> set ?st"
    then have "w < length ps" "adj eps ps i w" by (simp_all add: in_neighborhood)
    moreover have "?lab ! i = int c" using upd [OF i] by simp
    ultimately show "w < length ps
        \<and> (\<exists>v<length ps. is_core eps m ps v \<and> adj eps ps v w \<and> ?lab ! v = int c)"
      using i ci by auto
  qed
  moreover have "cores_visited eps m ps (insert i P) ?lab"
    using vi len i un by (rule step_visited)
  moreover have "length ?lab = length ps" using len by simp
  ultimately show ?thesis unfolding inv_in_def by simp
qed

lemma expand_seed:
  assumes "i < length lab" and "lab ! i = -1" and "is_core eps m ps i"
  shows "expand eps m ps c [i] lab = expand eps m ps c (neighborhood eps ps i @ []) (lab[i := int c])"
proof -
  have "\<not> (length lab \<le> i \<or> lab ! i \<noteq> -1)" using assms by simp
  then show ?thesis using assms(3) by (simp only: expand.simps if_False if_True)
qed

lemma dbscan_loop_inv:
  assumes eps: "0 \<le> eps"
  shows "inv_out eps m ps P c lab \<Longrightarrow> \<forall>i\<in>set is. i < length ps
         \<Longrightarrow> \<exists>c'. inv_out eps m ps (P \<union> set is) c' (dbscan_loop eps m ps is c lab)"
proof (induction "is" arbitrary: P c lab)
  case Nil
  then show ?case by auto
next
  case (Cons i rest)
  from Cons.prems have i: "i < length ps" and rest: "\<forall>i\<in>set rest. i < length ps" by simp_all
  have un: "P \<union> set (i # rest) = insert i P \<union> set rest" by simp
  show ?case
  proof (cases "lab ! i \<noteq> -1 \<or> \<not> is_core eps m ps i")
    case True
    have e: "dbscan_loop eps m ps (i # rest) c lab = dbscan_loop eps m ps rest c lab"
      by (simp only: dbscan_loop.simps True if_True)
    from Cons.prems(1) True have "inv_out eps m ps (insert i P) c lab" by (rule inv_out_skip)
    from Cons.IH [OF this rest] show ?thesis unfolding e un .
  next
    case False
    have e: "dbscan_loop eps m ps (i # rest) c lab
             = dbscan_loop eps m ps rest (Suc c) (expand eps m ps c [i] lab)"
      by (simp only: dbscan_loop.simps False if_False)
    from False have li: "lab ! i = -1" and ci: "is_core eps m ps i" by simp_all
    from Cons.prems(1) have len: "length lab = length ps" unfolding inv_out_def by simp
    have "inv_in eps m ps (insert i P) c (neighborhood eps ps i @ []) (lab[i := int c])"
      using Cons.prems(1) i ci li eps by (rule inv_in_start)
    then have "inv_in eps m ps (insert i P) c []
        (expand eps m ps c (neighborhood eps ps i @ []) (lab[i := int c]))"
      by (rule expand_inv)
    then have "inv_in eps m ps (insert i P) c [] (expand eps m ps c [i] lab)"
      using expand_seed [of i lab eps m ps c] i len li ci by simp
    then have "inv_out eps m ps (insert i P) (Suc c) (expand eps m ps c [i] lab)"
      by (rule inv_in_done)
    from Cons.IH [OF this rest] show ?thesis unfolding e un .
  qed
qed

lemma DBSCAN_inv:
  assumes "0 \<le> eps"
  shows "\<exists>c. inv_out eps m ps {..<length ps} c (DBSCAN eps m ps)"
proof -
  have "\<forall>i\<in>set [0..<length ps]. i < length ps" by simp
  from dbscan_loop_inv [OF assms inv_out_init this, of m]
  show ?thesis by (simp add: DBSCAN_def lessThan_atLeast0)
qed

text \<open>What the labels of a finished pass say.\<close>

lemma noise_iff:
  assumes io: "inv_out eps m ps {..<length ps} c lab" and j: "j < length ps"
  shows "lab ! j \<noteq> -1 \<longleftrightarrow> (\<exists>v<length ps. is_core eps m ps v \<and> adj eps ps v j)"
proof
  from io have an: "labels_anchored eps m ps lab" unfolding inv_out_def by simp
  assume "lab ! j \<noteq> -1"
  from labels_anchoredD [OF an j this] show "\<exists>v<length ps. is_core eps m ps v \<and> adj eps ps v j"
    by blast
next
  from io have cl: "labels_closed eps m ps 0 [] lab" and vi: "cores_visited eps m ps {..<length ps} lab"
    unfolding inv_out_def by simp_all
  assume "\<exists>v<length ps. is_core eps m ps v \<and> adj eps ps v j"
  then obtain v where v: "v < length ps" "is_core eps m ps v" "adj eps ps v j" by blast
  from cores_visitedD [OF vi _ v(2)] v(1) have "lab ! v \<noteq> -1" by simp
  from labels_closedD [OF cl v(1) j v(2) this v(3)] show "lab ! j \<noteq> -1" by simp
qed

lemma core_same_label_iff:
  assumes io: "inv_out eps m ps {..<length ps} c lab"
    and u: "u < length ps" "is_core eps m ps u" and v: "v < length ps" "is_core eps m ps v"
  shows "lab ! u = lab ! v \<longleftrightarrow> (u, v) \<in> (core_edges eps m ps)\<^sup>*"
proof
  from io have li: "labels_linked eps m ps lab" and vi: "cores_visited eps m ps {..<length ps} lab"
    unfolding inv_out_def by simp_all
  from cores_visitedD [OF vi _ u(2)] u(1) have "lab ! u \<noteq> -1" by simp
  moreover assume "lab ! u = lab ! v"
  ultimately show "(u, v) \<in> (core_edges eps m ps)\<^sup>*"
    using labels_linkedD [OF li u(1) v(1) u(2) v(2)] by simp
next
  from io have cl: "labels_closed eps m ps 0 [] lab" and vi: "cores_visited eps m ps {..<length ps} lab"
    unfolding inv_out_def by simp_all
  assume "(u, v) \<in> (core_edges eps m ps)\<^sup>*"
  then show "lab ! u = lab ! v"
  proof (induction rule: rtrancl_induct)
    case base
    show ?case by simp
  next
    case (step y z)
    from step.hyps(2) have y: "y < length ps" "is_core eps m ps y"
      and z: "z < length ps" "is_core eps m ps z" and a: "adj eps ps y z"
      by (simp_all add: core_edges_def)
    from cores_visitedD [OF vi _ y(2)] y(1) have "lab ! y \<noteq> -1" by simp
    from labels_closedD [OF cl y(1) z(1) y(2) this a] z(2) have "lab ! z = lab ! y" by simp
    with step.IH show ?case by simp
  qed
qed

lemma is_core_point: "is_core eps m ps i = core_point eps m ps (ps ! i)"
  unfolding is_core_def core_point_def neighborhood_def
  by (simp add: length_filter_nth [of "\<lambda>q. euclidean (ps ! i) q \<le> eps" ps])

lemma length_filter_mset:
  "mset xs = mset ys \<Longrightarrow> length (filter P xs) = length (filter P ys)"
proof -
  assume "mset xs = mset ys"
  then have "mset (filter P xs) = mset (filter P ys)" by simp
  then show ?thesis by (rule mset_eq_length)
qed

lemma core_point_mset:
  "mset ps' = mset ps \<Longrightarrow> core_point eps m ps' p = core_point eps m ps p"
  unfolding core_point_def by (simp add: length_filter_mset [of ps' ps])

lemma point_edges_mset:
  assumes "mset ps' = mset ps"
  shows "point_edges eps m ps' = point_edges eps m ps"
proof -
  from assms have "set ps' = set ps" by (rule mset_eq_setD)
  then show ?thesis unfolding point_edges_def by (simp add: core_point_mset [OF assms])
qed

lemma core_edge_points:
  "(u, v) \<in> core_edges eps m ps \<Longrightarrow> (ps ! u, ps ! v) \<in> point_edges eps m ps"
  by (simp add: core_edges_def point_edges_def adj_def is_core_point)

lemma core_path_points:
  "(u, v) \<in> (core_edges eps m ps)\<^sup>* \<Longrightarrow> (ps ! u, ps ! v) \<in> (point_edges eps m ps)\<^sup>*"
proof (induction rule: rtrancl_induct)
  case base
  show ?case by simp
next
  case (step y z)
  from step.hyps(2) have "(ps ! y, ps ! z) \<in> point_edges eps m ps" by (rule core_edge_points)
  with step.IH show ?case by (rule rtrancl_into_rtrancl)
qed

lemma point_path_cores:
  assumes eps: "0 \<le> eps" and path: "(p, q) \<in> (point_edges eps m ps)\<^sup>*"
  shows "u < length ps \<Longrightarrow> ps ! u = p \<Longrightarrow> is_core eps m ps u
         \<Longrightarrow> v < length ps \<Longrightarrow> ps ! v = q \<Longrightarrow> is_core eps m ps v
         \<Longrightarrow> (u, v) \<in> (core_edges eps m ps)\<^sup>*"
  using path
proof (induction arbitrary: v rule: rtrancl_induct)
  case base
  then have "adj eps ps u v" using adj_refl [OF eps, of ps u] by (simp add: adj_def)
  with base have "(u, v) \<in> core_edges eps m ps" by (simp add: core_edges_def)
  then show ?case by (rule r_into_rtrancl)
next
  case (step y z)
  from step.hyps(2) have y: "y \<in> set ps" "core_point eps m ps y" and a: "euclidean y z \<le> eps"
    by (simp_all add: point_edges_def)
  from y(1) obtain w where w: "w < length ps" "ps ! w = y" by (auto simp: in_set_conv_nth)
  with y(2) have cw: "is_core eps m ps w" by (simp add: is_core_point)
  have "(u, w) \<in> (core_edges eps m ps)\<^sup>*"
    using step.prems(1-3) w cw by (intro step.IH)
  moreover have "(w, v) \<in> core_edges eps m ps"
    using w cw step.prems(4-6) a by (simp add: core_edges_def adj_def)
  ultimately show ?case by (rule rtrancl_into_rtrancl)
qed

lemma near_core_points:
  assumes "j < length ps"
  shows "(\<exists>v<length ps. is_core eps m ps v \<and> adj eps ps v j)
         \<longleftrightarrow> (\<exists>q\<in>set ps. core_point eps m ps q \<and> euclidean q (ps ! j) \<le> eps)"
proof
  assume "\<exists>v<length ps. is_core eps m ps v \<and> adj eps ps v j"
  then obtain v where "v < length ps" "core_point eps m ps (ps ! v)"
    "euclidean (ps ! v) (ps ! j) \<le> eps"
    by (auto simp: is_core_point adj_def)
  moreover from this have "ps ! v \<in> set ps" by simp
  ultimately show "\<exists>q\<in>set ps. core_point eps m ps q \<and> euclidean q (ps ! j) \<le> eps"
    by blast
next
  assume "\<exists>q\<in>set ps. core_point eps m ps q \<and> euclidean q (ps ! j) \<le> eps"
  then obtain q where q: "q \<in> set ps" "core_point eps m ps q" "euclidean q (ps ! j) \<le> eps"
    by blast
  from q(1) obtain v where "v < length ps" "ps ! v = q" by (auto simp: in_set_conv_nth)
  with q(2,3) show "\<exists>v<length ps. is_core eps m ps v \<and> adj eps ps v j"
    by (auto simp: is_core_point adj_def)
qed

lemma DBSCAN_noise_point:
  assumes eps: "0 \<le> eps" and j: "j < length ps"
  shows "DBSCAN eps m ps ! j = -1
         \<longleftrightarrow> \<not> (\<exists>q\<in>set ps. core_point eps m ps q \<and> euclidean q (ps ! j) \<le> eps)"
proof -
  from DBSCAN_inv [OF eps] obtain c where "inv_out eps m ps {..<length ps} c (DBSCAN eps m ps)" ..
  from noise_iff [OF this j] show ?thesis unfolding near_core_points [OF j] by blast
qed

lemma DBSCAN_core_points:
  assumes eps: "0 \<le> eps"
    and u: "u < length ps" "is_core eps m ps u" and v: "v < length ps" "is_core eps m ps v"
  shows "DBSCAN eps m ps ! u = DBSCAN eps m ps ! v
         \<longleftrightarrow> (ps ! u, ps ! v) \<in> (point_edges eps m ps)\<^sup>*"
proof -
  from DBSCAN_inv [OF eps] obtain c where "inv_out eps m ps {..<length ps} c (DBSCAN eps m ps)" ..
  from core_same_label_iff [OF this u v]
  have "DBSCAN eps m ps ! u = DBSCAN eps m ps ! v \<longleftrightarrow> (u, v) \<in> (core_edges eps m ps)\<^sup>*" .
  also have "\<dots> \<longleftrightarrow> (ps ! u, ps ! v) \<in> (point_edges eps m ps)\<^sup>*"
    using core_path_points [of u v eps m ps]
      point_path_cores [OF eps _ u(1) refl u(2) v(1) refl v(2)]
    by blast
  finally show ?thesis .
qed

lemma DBSCAN_anchor:
  assumes eps: "0 \<le> eps" and j: "j < length ps" and l: "DBSCAN eps m ps ! j \<noteq> -1"
  shows "\<exists>v<length ps. is_core eps m ps v \<and> euclidean (ps ! v) (ps ! j) \<le> eps
           \<and> DBSCAN eps m ps ! v = DBSCAN eps m ps ! j"
proof -
  from DBSCAN_inv [OF eps] obtain c where "inv_out eps m ps {..<length ps} c (DBSCAN eps m ps)" ..
  then have "labels_anchored eps m ps (DBSCAN eps m ps)" unfolding inv_out_def by simp
  from labels_anchoredD [OF this j l] show ?thesis unfolding adj_def .
qed

section \<open>Results: total distance\<close>











section \<open>Results: coordinates out of range\<close>

text \<open>
  Claim C4, as stated, fails: \<open>haversine_distance\<close> does not look at the range of its
  arguments. At latitude 100 and longitude 200, both out of range, it returns the
  distance 0 of a point to itself.
\<close>

theorem haversine_out_of_range_counterexample:
  "\<not> ((100::real) \<le> 90) \<and> \<not> ((200::real) \<le> 180)
   \<and> haversine_distance 100 200 100 200 = Inr 0
   \<and> haversine_distance 100 200 100 200 \<noteq> Inl InvalidCoordinate"
  by (simp add: haversine_distance_def)

text \<open>
  Claim C4, amended. \<open>haversine_distance\<close> validates nothing: for every four
  arguments, in range or not, it returns a value and never fails with
  \<open>InvalidCoordinate\<close>.
\<close>

theorem haversine_never_fails:
  "(\<exists>d. haversine_distance lat1 lon1 lat2 lon2 = Inr d)
   \<and> haversine_distance lat1 lon1 lat2 lon2 \<noteq> Inl InvalidCoordinate"
  by (simp add: haversine_distance_def Let_def)

section \<open>Results: the season of a month\<close>

text \<open>
  Claim C10. \<open>get_season\<close> is a total function of the integers, and every month
  that is none of 12, 1, 2, 3, 4, 5, 6, 7, 8 is mapped to Autumn: the months 9, 10 and
  11, and just as well 0, 13 or a negative number. No input is rejected.
\<close>

theorem get_season_autumn_default:
  "m \<notin> {12, 1, 2, 3, 4, 5, 6, 7, 8} \<Longrightarrow> get_season m = ''Autumn''"
  by (simp add: get_season_def)

theorem get_season_autumn_default_witness:
  "(0::int) \<notin> {12, 1, 2, 3, 4, 5, 6, 7, 8} \<and> get_season 0 = ''Autumn''
   \<and> (13::int) \<notin> {12, 1, 2, 3, 4, 5, 6, 7, 8} \<and> get_season 13 = ''Autumn''
   \<and> (-4::int) \<notin> {12, 1, 2, 3, 4, 5, 6, 7, 8} \<and> get_season (-4) = ''Autumn''"
  using get_season_autumn_default [of 0] get_season_autumn_default [of 13]
    get_season_autumn_default [of "-4"]
  by simp

section \<open>Results: the order of season centroids\<close>

lemma groupby_keys: "map fst (groupby key df) = sort (remdups (map key df))"
  by (simp add: groupby_def comp_def)

lemma season_centroid_keys:
  "map period_key (calculate_centroids df ''season'') = map Season (sort (remdups (map season df)))"
  by (simp add: calculate_centroids_def groupby_def agg_centroid_def comp_def)

lemma sorted_alphabetical: "sorted [''Autumn'', ''Spring'', ''Summer'', ''Winter'']"
  by code_simp

lemma sort_winter_autumn: "sort (remdups [''Winter'', ''Autumn'']) = [''Autumn'', ''Winter'']"
  by code_simp

text \<open>
  Claim C2, as stated, fails. The groups come out of \<open>groupby\<close> in ascending key
  order, and season names are strings: for a frame with one Winter and one Autumn
  sighting the Autumn centroid comes first, which is not the cycle order.
\<close>

theorem season_centroids_counterexample:
  "map period_key (calculate_centroids frame_two ''season'') = [Season ''Autumn'', Season ''Winter'']
   \<and> \<not> in_season_cycle_order (map period_key (calculate_centroids frame_two ''season''))"
proof -
  have k: "map period_key (calculate_centroids frame_two ''season'')
           = [Season ''Autumn'', Season ''Winter'']"
    unfolding season_centroid_keys
    by (simp add: frame_two_def sort_winter_autumn del: remdups.simps sort_key_simps)
  show ?thesis unfolding k by (simp add: in_season_cycle_order_def season_cycle_def)
qed

text \<open>
  Claim C2, amended. With \<open>time_window = 'season'\<close> there is one centroid per season
  name in the frame, and the centroids are in ascending lexicographic order of the
  season name; for the four names the cleaner produces this is the order Autumn,
  Spring, Summer, Winter.
\<close>

theorem season_centroids_alphabetical:
  "(\<exists>names. map period_key (calculate_centroids df ''season'') = map Season names
       \<and> sorted names \<and> distinct names \<and> set names = season ` set df)
   \<and> (season ` set df \<subseteq> {''Winter'', ''Spring'', ''Summer'', ''Autumn''} \<longrightarrow>
        map period_key (calculate_centroids df ''season'')
        = map Season (filter (\<lambda>s. s \<in> season ` set df) [''Autumn'', ''Spring'', ''Summer'', ''Winter'']))"
proof -
  let ?names = "sort (remdups (map season df))"
  let ?four = "[''Autumn'', ''Spring'', ''Summer'', ''Winter'']"
  have props: "sorted ?names" "distinct ?names" "set ?names = season ` set df"
    by simp_all
  have four: "?names = filter (\<lambda>s. s \<in> season ` set df) ?four"
    if sub: "season ` set df \<subseteq> {''Winter'', ''Spring'', ''Summer'', ''Autumn''}"
  proof (rule sorted_distinct_set_unique)
    show "sorted ?names" "distinct ?names" by simp_all
    show "sorted (filter (\<lambda>s. s \<in> season ` set df) ?four)"
      by (rule sorted_wrt_filter) (rule sorted_alphabetical)
    show "distinct (filter (\<lambda>s. s \<in> season ` set df) ?four)"
      by (rule distinct_filter) simp
    have "set (filter (\<lambda>s. s \<in> season ` set df) ?four) = season ` set df \<inter> set ?four"
      unfolding set_filter by blast
    also have "\<dots> = season ` set df"
      using sub by (intro Int_absorb2) auto
    finally show "set ?names = set (filter (\<lambda>s. s \<in> season ` set df) ?four)"
      by simp
  qed
  have "\<exists>names. map Season ?names = map Season names
       \<and> sorted names \<and> distinct names \<and> set names = season ` set df"
    using props by (intro exI [of _ ?names] conjI refl)
  moreover have "season ` set df \<subseteq> {''Winter'', ''Spring'', ''Summer'', ''Autumn''} \<longrightarrow>
        map Season ?names = map Season (filter (\<lambda>s. s \<in> season ` set df) ?four)"
    using four by (intro impI arg_cong [of _ _ "map Season"])
  ultimately show ?thesis unfolding season_centroid_keys by (rule conjI)
qed

theorem season_centroids_alphabetical_witness:
  "season ` set frame_two \<subseteq> {''Winter'', ''Spring'', ''Summer'', ''Autumn''}
   \<and> map period_key (calculate_centroids frame_two ''season'')
       = [Season ''Autumn'', Season ''Winter'']"
proof -
  have sub: "season ` set frame_two \<subseteq> {''Winter'', ''Spring'', ''Summer'', ''Autumn''}"
    by (simp add: frame_two_def)
  have "map period_key (calculate_centroids frame_two ''season'')
        = map Season (filter (\<lambda>s. s \<in> season ` set frame_two)
            [''Autumn'', ''Spring'', ''Summer'', ''Winter''])"
    using season_centroids_alphabetical [of frame_two] sub by blast
  also have "\<dots> = [Season ''Autumn'', Season ''Winter'']"
    by (simp add: frame_two_def)
  finally show ?thesis using sub by simp
qed

section \<open>Results: the time window of the migration analysis\<close>

lemma DBSCAN_single: "DBSCAN 1 5 [p] = [-1]"
  by (simp add: DBSCAN_def is_core_def neighborhood_def)

lemma groupby_single: "groupby key [r] = [(key r, [r])]"
  by (simp add: groupby_def)

lemma centroids_frame_one_year: "calculate_centroids frame_one ''year'' =
   [\<lparr>period_key = Season ''Winter'', centroid_lat = 10, centroid_lon = 20, sighting_count = 1\<rparr>]"
  by (simp add: calculate_centroids_def frame_one_def groupby_single agg_centroid_def mean_def)

lemma seasonal_ranges_frame_one: "calculate_seasonal_ranges frame_one =
   [(''Winter'', \<lparr>latitude_range = (Some 10, Some 10), longitude_range = (Some 20, Some 20)\<rparr>)]"
  by (simp add: calculate_seasonal_ranges_def frame_one_def groupby_single)

lemma corridors_frame_one: "identify_migration_corridors frame_one = []"
  by (simp add: identify_migration_corridors_def frame_one_def DBSCAN_single label_set_def)

text \<open>
  Claim C3 at the input \<open>time_window = 'year'\<close>, for a species with one sighting:
  the call does not fail with \<open>InvalidArgument\<close>. It returns a result, and the
  centroids in it are the season centroids, as for \<open>time_window = 'season'\<close>.
\<close>

theorem migration_year_window:
  "analyze_migration_patterns frame_one ''X'' ''year'' =
     Inr (Migration \<lparr>centroids = [\<lparr>period_key = Season ''Winter'', centroid_lat = 10,
                                  centroid_lon = 20, sighting_count = 1\<rparr>],
            total_distance = 0,
            seasonal_ranges = [(''Winter'', \<lparr>latitude_range = (Some 10, Some 10),
                                            longitude_range = (Some 20, Some 20)\<rparr>)],
            migration_corridors = []\<rparr>)"
proof -
  have f: "filter (\<lambda>r. scientificname r = ''X'') frame_one = frame_one"
    by (simp add: frame_one_def)
  have ne: "frame_one \<noteq> []" by (simp add: frame_one_def)
  show ?thesis
    unfolding analyze_migration_patterns_def Let_def f centroids_frame_one_year seasonal_ranges_frame_one corridors_frame_one
    using ne by (simp add: calculate_total_distance_def)
qed

section \<open>Results: empty inputs\<close>

lemma groupby_Nil: "groupby key [] = []"
  by (simp add: groupby_def)

text \<open>
  Claim C5. When no row is left after the species filter, the habitat analysis
  returns the empty dict: the empty bundle when no period is asked for, the dict with
  no period when the period is \<open>year\<close> or \<open>season\<close>. The migration analysis of a
  species without rows returns the empty dict. Neither raises.
\<close>

theorem empty_inputs_do_not_raise:
  "((if truthy species then filter (\<lambda>r. Some (scientificname r) = species) df else df) = [] \<longrightarrow>
      (\<not> truthy time_period \<longrightarrow>
         analyze_habitat_preferences df species time_period = Inr (Single EmptyBundle))
      \<and> (time_period = Some ''year'' \<or> time_period = Some ''season'' \<longrightarrow>
         analyze_habitat_preferences df species time_period = Inr (PerPeriod [])))
   \<and> (filter (\<lambda>r. scientificname r = sp) df = [] \<longrightarrow>
         analyze_migration_patterns df sp time_window = Inr EmptyResult)"
proof (intro conjI impI)
  assume e: "(if truthy species then filter (\<lambda>r. Some (scientificname r) = species) df else df) = []"
  show "analyze_habitat_preferences df species time_period = Inr (Single EmptyBundle)"
    if "\<not> truthy time_period"
    using that unfolding analyze_habitat_preferences_def Let_def e
    by (simp add: calculate_habitat_metrics_def)
  show "analyze_habitat_preferences df species time_period = Inr (PerPeriod [])"
    if "time_period = Some ''year'' \<or> time_period = Some ''season''"
    using that unfolding analyze_habitat_preferences_def Let_def e
    by (auto simp: groupby_Nil)
next
  assume "filter (\<lambda>r. scientificname r = sp) df = []"
  then show "analyze_migration_patterns df sp time_window = Inr EmptyResult"
    by (simp add: analyze_migration_patterns_def)
qed

theorem empty_inputs_do_not_raise_witness:
  "analyze_habitat_preferences frame_one (Some ''Unknown'') None = Inr (Single EmptyBundle)
   \<and> analyze_habitat_preferences frame_one (Some ''Unknown'') (Some ''season'') = Inr (PerPeriod [])
   \<and> analyze_habitat_preferences [] None (Some ''year'') = Inr (PerPeriod [])
   \<and> analyze_migration_patterns frame_one ''Unknown'' ''month'' = Inr EmptyResult"
proof -
  have e: "(if truthy (Some ''Unknown'')
            then filter (\<lambda>r. Some (scientificname r) = Some ''Unknown'') frame_one
            else frame_one) = []"
    by (simp add: frame_one_def)
  have e': "(if truthy None then filter (\<lambda>r. Some (scientificname r) = None) [] else []) = ([] :: dataframe)"
    by simp
  have m: "filter (\<lambda>r. scientificname r = ''Unknown'') frame_one = []"
    by (simp add: frame_one_def)
  show ?thesis
    using empty_inputs_do_not_raise [of "Some ''Unknown''" frame_one None "''Unknown''" "''month''"]
      empty_inputs_do_not_raise [of "Some ''Unknown''" frame_one "Some ''season''" "''Unknown''" "''month''"]
      empty_inputs_do_not_raise [of None "[]" "Some ''year''" "''Unknown''" "''month''"]
      e e' m
    by simp
qed

section \<open>Results: the density fit on degenerate groups\<close>

text \<open>
  Claim C6. On a group that is not empty and has fewer than 2 points, or whose points
  all coincide, \<open>calculate_habitat_metrics\<close> fails with the \<open>InsufficientDataError\<close>
  of the density fit, which it does not catch; in particular on a single point.
\<close>

theorem density_fit_fails_on_degenerate_group:
  "df \<noteq> [] \<Longrightarrow>
   length df < 2 \<or> (\<forall>r\<in>set df. (longitude r, latitude r) = (longitude (hd df), latitude (hd df))) \<Longrightarrow>
   calculate_habitat_metrics df = Inl InsufficientDataError"
proof -
  assume ne: "df \<noteq> []"
    and deg: "length df < 2 \<or> (\<forall>r\<in>set df. (longitude r, latitude r) = (longitude (hd df), latitude (hd df)))"
  let ?cs = "map (\<lambda>r. (longitude r, latitude r)) df"
  have hd: "hd ?cs = (longitude (hd df), latitude (hd df))"
    using ne by (simp add: hd_map)
  have "length ?cs < 2 \<or> list_all (\<lambda>p. p = hd ?cs) ?cs"
    using deg unfolding hd by (auto simp: list_all_iff)
  then have "gaussian_kde ?cs = Inl InsufficientDataError"
    by (simp only: gaussian_kde_def if_True)
  with ne show ?thesis
    by (simp add: calculate_habitat_metrics_def)
qed

theorem density_fit_fails_on_degenerate_group_witness:
  "calculate_habitat_metrics frame_one = Inl InsufficientDataError
   \<and> calculate_habitat_metrics
        [\<lparr>scientificname = ''X'', latitude = 10, longitude = 20, eventdate = 0,
          year = 2010, month = 1, season = ''Winter''\<rparr>,
         \<lparr>scientificname = ''X'', latitude = 10, longitude = 20, eventdate = 86400,
          year = 2010, month = 1, season = ''Winter''\<rparr>] = Inl InsufficientDataError"
  using density_fit_fails_on_degenerate_group [of frame_one]
    density_fit_fails_on_degenerate_group
      [of "[\<lparr>scientificname = ''X'', latitude = 10, longitude = 20, eventdate = 0,
          year = 2010, month = 1, season = ''Winter''\<rparr>,
         \<lparr>scientificname = ''X'', latitude = 10, longitude = 20, eventdate = 86400,
          year = 2010, month = 1, season = ''Winter''\<rparr>]"]
  by (simp add: frame_one_def)

section \<open>Results: migration corridors\<close>

lemma labels_frame_corridor:
  "DBSCAN 1 5 (map (\<lambda>r. (longitude r, latitude r)) frame_corridor) = [0, 0, 0, 0, 0, -1]"
  unfolding DBSCAN_def frame_corridor_def
  by (simp add: is_core_def neighborhood_def euclidean_le_iff upt_rec [of _ "numeral _"])

lemma distinct_set_single: "distinct ls \<Longrightarrow> set ls = {a} \<Longrightarrow> ls = [a]"
proof (cases ls)
  case Nil
  assume "set ls = {a}" with Nil show ?thesis by simp
next
  case (Cons x xs)
  assume d: "distinct ls" and s: "set ls = {a}"
  from s Cons have x: "x = a" by auto
  from d s Cons x have "set xs \<subseteq> {a}" "a \<notin> set xs" by auto
  then have "xs = []" by (cases xs) auto
  with Cons x show ?thesis by simp
qed

text \<open>
  Claim C7. Let \<open>L\<close> be the label vector of the clustering. The corridors are one per
  distinct label of \<open>L\<close> other than the noise label \<open>-1\<close>. The corridor of a label
  lists the (latitude, longitude) pairs of exactly the rows with that label, in frame
  order; its sighting count is their number; its time span is the earliest and the
  latest \<open>eventdate\<close> among them. A row with the noise label is in no corridor: the
  sighting counts add up to the number of rows that are not noise.
\<close>

theorem corridors_one_per_cluster:
  "\<exists>ls. distinct ls
      \<and> set ls = set (DBSCAN 1 5 (map (\<lambda>r. (longitude r, latitude r)) df)) - {-1}
      \<and> length (identify_migration_corridors df) = length ls
      \<and> (\<forall>k<length ls.
           let members = filter (\<lambda>i. DBSCAN 1 5 (map (\<lambda>r. (longitude r, latitude r)) df) ! i = ls ! k)
                           [0..<length df];
               c = identify_migration_corridors df ! k
           in members \<noteq> []
              \<and> points c = map (\<lambda>i. (latitude (df ! i), longitude (df ! i))) members
              \<and> corridor_sighting_count c = length members
              \<and> time_span c = (Some (Min (set (map (\<lambda>i. eventdate (df ! i)) members))),
                               Some (Max (set (map (\<lambda>i. eventdate (df ! i)) members)))))
      \<and> sum_list (map corridor_sighting_count (identify_migration_corridors df))
          = length (filter (\<lambda>l. l \<noteq> -1) (DBSCAN 1 5 (map (\<lambda>r. (longitude r, latitude r)) df)))"
proof -
  let ?L = "DBSCAN 1 5 (map (\<lambda>r. (longitude r, latitude r)) df)"
  let ?ls = "filter (\<lambda>label. label \<noteq> -1) (label_set ?L)"
  have len: "length ?L = length df" by (simp add: DBSCAN_length)
  have cs: "identify_migration_corridors df = map (cluster_corridor df ?L) ?ls"
    by (simp add: identify_migration_corridors_def Let_def)
  show ?thesis
    unfolding cs
    using corridors_of_labels [OF len]
    by (intro exI [of _ ?ls] conjI)
qed

theorem corridors_one_per_cluster_witness:
  "\<exists>c. identify_migration_corridors frame_corridor = [c]
      \<and> points c = [(10, 20), (10, 21), (11, 20), (10, 19), (9, 20)]
      \<and> corridor_sighting_count c = 5
      \<and> time_span c = (Some 1, Some 5)"
proof -
  let ?cs = "identify_migration_corridors frame_corridor"
  let ?L = "[0, 0, 0, 0, 0, -1 :: int]"
  from corridors_one_per_cluster [of frame_corridor] obtain ls where
    p: "distinct ls \<and> set ls = set ?L - {-1}
      \<and> length ?cs = length ls
      \<and> (\<forall>k<length ls.
           let members = filter (\<lambda>i. ?L ! i = ls ! k) [0..<length frame_corridor];
               c = ?cs ! k
           in members \<noteq> []
              \<and> points c = map (\<lambda>i. (latitude (frame_corridor ! i), longitude (frame_corridor ! i))) members
              \<and> corridor_sighting_count c = length members
              \<and> time_span c = (Some (Min (set (map (\<lambda>i. eventdate (frame_corridor ! i)) members))),
                               Some (Max (set (map (\<lambda>i. eventdate (frame_corridor ! i)) members)))))
      \<and> sum_list (map corridor_sighting_count ?cs) = length (filter (\<lambda>l. l \<noteq> -1) ?L)"
    unfolding labels_frame_corridor ..
  note d = p [THEN conjunct1]
  note s = p [THEN conjunct2, THEN conjunct1]
  note len = p [THEN conjunct2, THEN conjunct2, THEN conjunct1]
  note each = p [THEN conjunct2, THEN conjunct2, THEN conjunct2, THEN conjunct1]
  from s have "set ls = {0}" by (simp add: insert_Diff_if)
  with d have ls: "ls = [0]" by (rule distinct_set_single)
  from len ls obtain c where cs: "?cs = [c]"
    by (cases ?cs) auto
  have n: "length frame_corridor = 6" by (simp add: frame_corridor_def)
  have m: "filter (\<lambda>i. ?L ! i = 0) [0..<6] = [0, 1, 2, 3, 4]"
    by (simp add: upt_rec [of _ "numeral _"])
  from each have e0: "let members = filter (\<lambda>i. ?L ! i = 0) [0..<6]
           in members \<noteq> []
              \<and> points c = map (\<lambda>i. (latitude (frame_corridor ! i), longitude (frame_corridor ! i))) members
              \<and> corridor_sighting_count c = length members
              \<and> time_span c = (Some (Min (set (map (\<lambda>i. eventdate (frame_corridor ! i)) members))),
                               Some (Max (set (map (\<lambda>i. eventdate (frame_corridor ! i)) members))))"
    unfolding ls cs n by simp
  have "points c = [(10, 20), (10, 21), (11, 20), (10, 19), (9, 20)]
      \<and> corridor_sighting_count c = 5
      \<and> time_span c = (Some 1, Some 5)"
    using e0 unfolding m Let_def by (simp add: frame_corridor_def)
  with cs show ?thesis by blast
qed

section \<open>Results: cluster membership and input order\<close>

lemma labels_border_points: "DBSCAN 1 5 border_points = [0, 0, 0, 0, 0, 1, 1, 1, 1]"
  unfolding DBSCAN_def border_points_def
  by (simp add: is_core_def neighborhood_def euclidean_le_iff upt_rec [of _ "numeral _"])

lemma labels_border_points_rev: "DBSCAN 1 5 (rev border_points) = [0, 0, 0, 0, 0, 1, 1, 1, 1]"
  unfolding DBSCAN_def border_points_def
  by (simp add: is_core_def neighborhood_def euclidean_le_iff upt_rec [of _ "numeral _"])

lemma labels_two_core_points: "DBSCAN 1 5 two_core_points = [0, 0, 0, 0, 0, 0, 0, 0, -1]"
  unfolding DBSCAN_def two_core_points_def
  by (simp add: is_core_def neighborhood_def euclidean_le_iff upt_rec [of _ "numeral _"])

lemma cores_two_core_points: "is_core 1 5 two_core_points 0" "is_core 1 5 two_core_points 4"
  unfolding two_core_points_def
  by (simp_all add: is_core_def neighborhood_def euclidean_le_iff upt_rec [of _ "numeral _"])

lemma DBSCAN_label_range:
  assumes eps: "0 \<le> eps" and j: "j < length ps"
  shows "-1 \<le> DBSCAN eps m ps ! j"
proof -
  from DBSCAN_inv [OF eps] obtain c where "inv_out eps m ps {..<length ps} c (DBSCAN eps m ps)" ..
  then have "labels_bounded ps c (DBSCAN eps m ps)" unfolding inv_out_def by simp
  from labels_boundedD [OF this j] show ?thesis by auto
qed

lemma DBSCAN_noise_index:
  assumes eps: "0 \<le> eps" and j: "j < length ps"
  shows "DBSCAN eps m ps ! j = -1
         \<longleftrightarrow> \<not> (\<exists>v<length ps. is_core eps m ps v \<and> euclidean (ps ! v) (ps ! j) \<le> eps)"
proof -
  from DBSCAN_inv [OF eps] obtain c where "inv_out eps m ps {..<length ps} c (DBSCAN eps m ps)" ..
  from noise_iff [OF this j] show ?thesis unfolding adj_def by blast
qed

text \<open>
  Claim C8, as stated, fails. The border point (1, 0) is within \<open>eps\<close> of the core
  points (0, 0) and (2, 0) of two clusters. In the given order it is grouped with
  (0, 0); in the reversed order, a permutation of the same points, it is grouped with
  (2, 0) and no longer with (0, 0).
\<close>

theorem border_point_order_counterexample:
  "mset (rev border_points) = mset border_points
   \<and> border_points ! 4 = (1, 0) \<and> border_points ! 0 = (0, 0)
   \<and> rev border_points ! 4 = (1, 0) \<and> rev border_points ! 8 = (0, 0)
   \<and> DBSCAN 1 5 border_points ! 4 = DBSCAN 1 5 border_points ! 0
   \<and> DBSCAN 1 5 (rev border_points) ! 4 \<noteq> DBSCAN 1 5 (rev border_points) ! 8"
  unfolding labels_border_points labels_border_points_rev
  by (simp add: border_points_def)

text \<open>
  Claim C8, amended. A point is noise exactly when no core point lies within \<open>eps\<close>
  of it, so every core point and every border point is in a cluster; two core points
  have the same label exactly when a chain of core points, each within \<open>eps\<close> of
  the next, joins them; a point that is not noise carries the label of a core point
  within \<open>eps\<close> of it. For every permutation of the input order: a point is noise
  in one order exactly when it is noise in the other, a core point in one exactly when
  it is in the other, and two core points have the same label in one order exactly
  when they have the same label in the other. Only a border point with core points of
  several clusters within \<open>eps\<close> may change its cluster with the order.
\<close>

theorem cluster_membership_order_independent:
  assumes perm: "mset ps' = mset ps"
    and i: "i < length ps" "i' < length ps'" "ps' ! i' = ps ! i"
    and j: "j < length ps" "j' < length ps'" "ps' ! j' = ps ! j"
  shows "(DBSCAN 1 5 ps ! i = -1 \<longleftrightarrow>
           \<not> (\<exists>v<length ps. is_core 1 5 ps v \<and> euclidean (ps ! v) (ps ! i) \<le> 1))
    \<and> (is_core 1 5 ps i \<and> is_core 1 5 ps j \<longrightarrow>
         (DBSCAN 1 5 ps ! i = DBSCAN 1 5 ps ! j \<longleftrightarrow> (ps ! i, ps ! j) \<in> (point_edges 1 5 ps)\<^sup>*))
    \<and> (DBSCAN 1 5 ps ! i \<noteq> -1 \<longrightarrow>
         (\<exists>v<length ps. is_core 1 5 ps v \<and> euclidean (ps ! v) (ps ! i) \<le> 1
            \<and> DBSCAN 1 5 ps ! v = DBSCAN 1 5 ps ! i))
    \<and> -1 \<le> DBSCAN 1 5 ps ! i
    \<and> (DBSCAN 1 5 ps' ! i' = -1 \<longleftrightarrow> DBSCAN 1 5 ps ! i = -1)
    \<and> (is_core 1 5 ps' i' \<longleftrightarrow> is_core 1 5 ps i)
    \<and> (is_core 1 5 ps i \<and> is_core 1 5 ps j \<longrightarrow>
         (DBSCAN 1 5 ps' ! i' = DBSCAN 1 5 ps' ! j' \<longleftrightarrow> DBSCAN 1 5 ps ! i = DBSCAN 1 5 ps ! j))"
proof (intro conjI impI)
  have eps: "(0::real) \<le> 1" by simp
  from perm have sets: "set ps' = set ps" by (rule mset_eq_setD)
  have cp: "\<And>p. core_point 1 5 ps' p = core_point 1 5 ps p"
    by (rule core_point_mset [OF perm])
  show "DBSCAN 1 5 ps ! i = -1 \<longleftrightarrow>
           \<not> (\<exists>v<length ps. is_core 1 5 ps v \<and> euclidean (ps ! v) (ps ! i) \<le> 1)"
    using eps i(1) by (rule DBSCAN_noise_index)
  show "DBSCAN 1 5 ps ! i = DBSCAN 1 5 ps ! j \<longleftrightarrow> (ps ! i, ps ! j) \<in> (point_edges 1 5 ps)\<^sup>*"
    if "is_core 1 5 ps i \<and> is_core 1 5 ps j"
    using that DBSCAN_core_points [OF eps i(1) _ j(1)] by blast
  show "\<exists>v<length ps. is_core 1 5 ps v \<and> euclidean (ps ! v) (ps ! i) \<le> 1
            \<and> DBSCAN 1 5 ps ! v = DBSCAN 1 5 ps ! i"
    if "DBSCAN 1 5 ps ! i \<noteq> -1"
    using eps i(1) that by (rule DBSCAN_anchor)
  show "-1 \<le> DBSCAN 1 5 ps ! i"
    using eps i(1) by (rule DBSCAN_label_range)
  show "DBSCAN 1 5 ps' ! i' = -1 \<longleftrightarrow> DBSCAN 1 5 ps ! i = -1"
    unfolding DBSCAN_noise_point [OF eps i(1)] DBSCAN_noise_point [OF eps i(2)]
    by (simp only: sets cp i(3))
  show ci: "is_core 1 5 ps' i' \<longleftrightarrow> is_core 1 5 ps i"
    by (simp only: is_core_point cp i(3))
  have cj: "is_core 1 5 ps' j' \<longleftrightarrow> is_core 1 5 ps j"
    by (simp only: is_core_point cp j(3))
  show "DBSCAN 1 5 ps' ! i' = DBSCAN 1 5 ps' ! j' \<longleftrightarrow> DBSCAN 1 5 ps ! i = DBSCAN 1 5 ps ! j"
    if "is_core 1 5 ps i \<and> is_core 1 5 ps j"
  proof -
    from that have c: "is_core 1 5 ps i" "is_core 1 5 ps j" by simp_all
    with ci cj have c': "is_core 1 5 ps' i'" "is_core 1 5 ps' j'" by simp_all
    show ?thesis
      unfolding DBSCAN_core_points [OF eps i(1) c(1) j(1) c(2)]
        DBSCAN_core_points [OF eps i(2) c'(1) j(2) c'(2)]
      by (simp only: point_edges_mset [OF perm] i(3) j(3))
  qed
qed

theorem cluster_membership_order_independent_witness:
  "mset (rev two_core_points) = mset two_core_points
   \<and> rev two_core_points ! 8 = two_core_points ! 0
   \<and> rev two_core_points ! 4 = two_core_points ! 4
   \<and> rev two_core_points ! 0 = two_core_points ! 8
   \<and> DBSCAN 1 5 two_core_points = [0, 0, 0, 0, 0, 0, 0, 0, -1]
   \<and> DBSCAN 1 5 (rev two_core_points) ! 8 = DBSCAN 1 5 (rev two_core_points) ! 4
   \<and> DBSCAN 1 5 (rev two_core_points) ! 8 \<noteq> -1
   \<and> DBSCAN 1 5 (rev two_core_points) ! 0 = -1
   \<and> (two_core_points ! 0, two_core_points ! 4) \<in> (point_edges 1 5 two_core_points)\<^sup>*
   \<and> \<not> (\<exists>v<length two_core_points. is_core 1 5 two_core_points v
          \<and> euclidean (two_core_points ! v) (two_core_points ! 8) \<le> 1)"
proof -
  let ?ps = two_core_points
  have perm: "mset (rev ?ps) = mset ?ps" by simp
  have n: "0 < length ?ps" "4 < length ?ps" "8 < length ?ps"
    "0 < length (rev ?ps)" "4 < length (rev ?ps)" "8 < length (rev ?ps)"
    by (simp_all add: two_core_points_def)
  have r8: "rev ?ps ! 8 = ?ps ! 0" and r4: "rev ?ps ! 4 = ?ps ! 4" and r0: "rev ?ps ! 0 = ?ps ! 8"
    by (simp_all add: two_core_points_def)
  have l0: "DBSCAN 1 5 ?ps ! 0 = 0" and l4: "DBSCAN 1 5 ?ps ! 4 = 0" and l8: "DBSCAN 1 5 ?ps ! 8 = -1"
    unfolding labels_two_core_points by simp_all
  note a = cluster_membership_order_independent [OF perm n(1) n(6) r8 n(2) n(5) r4]
  note b = cluster_membership_order_independent [OF perm n(3) n(4) r0 n(3) n(4) r0]
  note c = cores_two_core_points
  from a c l0 l4 have path: "(?ps ! 0, ?ps ! 4) \<in> (point_edges 1 5 ?ps)\<^sup>*"
    by simp
  from a have "DBSCAN 1 5 (rev ?ps) ! 8 = -1 \<longleftrightarrow> DBSCAN 1 5 ?ps ! 0 = -1"
    by (elim conjE)
  with l0 have nn: "DBSCAN 1 5 (rev ?ps) ! 8 \<noteq> -1" by simp
  from a c have "DBSCAN 1 5 (rev ?ps) ! 8 = DBSCAN 1 5 (rev ?ps) ! 4
      \<longleftrightarrow> DBSCAN 1 5 ?ps ! 0 = DBSCAN 1 5 ?ps ! 4"
    by (elim conjE) simp
  with l0 l4 have same: "DBSCAN 1 5 (rev ?ps) ! 8 = DBSCAN 1 5 (rev ?ps) ! 4" by simp
  from b have "DBSCAN 1 5 (rev ?ps) ! 0 = -1 \<longleftrightarrow> DBSCAN 1 5 ?ps ! 8 = -1"
    by (elim conjE)
  with l8 have noise: "DBSCAN 1 5 (rev ?ps) ! 0 = -1" by simp
  from b have "DBSCAN 1 5 ?ps ! 8 = -1 \<longleftrightarrow>
           \<not> (\<exists>v<length ?ps. is_core 1 5 ?ps v \<and> euclidean (?ps ! v) (?ps ! 8) \<le> 1)"
    by (elim conjE)
  with l8 have far: "\<not> (\<exists>v<length ?ps. is_core 1 5 ?ps v \<and> euclidean (?ps ! v) (?ps ! 8) \<le> 1)"
    by simp
  from perm r8 r4 r0 labels_two_core_points same nn noise path far
  show ?thesis by (intro conjI)
qed

end
